theory Spec2Isabelle
  imports Complex_Main "HOL-Library.Sublist"
begin

section \<open>Strings\<close>

text \<open>
  A Python \<open>str\<close> is modelled by the bytes of its UTF-8 encoding, as a \<^typ>\<open>string\<close>:
  the form in which the text is stored and in which the export file holds it. The ASCII
  characters the code inspects (\<open><\<close>, \<open>>\<close>, the quote, the backslash, the digits) are
  single bytes that never occur inside the encoding of another character, so byte-wise
  scanning and concatenation agree with the code-point-wise operations of the source.
  \<open>len\<close> counts code points, that is every byte but the continuation bytes
  \<open>0x80..0xBF\<close>.
\<close>

definition is_continuation :: "char \<Rightarrow> bool" where
  "is_continuation c = (128 \<le> (of_char c :: nat) \<and> (of_char c :: nat) < 192)"

definition py_len :: "string \<Rightarrow> nat" where
  "py_len s = length (filter (\<lambda>c. \<not> is_continuation c) s)"

text \<open>Truthiness of an optional text (\<open>not x\<close> holds for \<open>None\<close> and for the empty string).\<close>

fun py_not :: "string option \<Rightarrow> bool" where
  "py_not None = True"
| "py_not (Some s) = (s = [])"

section \<open>MessageBubble.clean_message\<close>

text \<open>
  \<open>re.sub(r'<[^>]+>', '', message)\<close>. \<open>match_tag\<close> is one attempt of the pattern at the
  start of a text and gives the text after the match: a \<open><\<close>, then as many characters
  other than \<open>>\<close> as there are (the greedy class; at least one), then a \<open>>\<close>. Giving
  characters back cannot help, since every shorter run is followed by a character that is
  not \<open>>\<close>. \<open>re_sub_tag\<close> is the substitution: leftmost matches, not overlapping, each
  replaced by the empty string, the scan going on after the match. \<open>re_search_tag\<close> says
  whether the pattern matches anywhere.
\<close>

definition match_tag :: "string \<Rightarrow> string option" where
  "match_tag s =
     (case s of
        [] \<Rightarrow> None
      | c # cs \<Rightarrow>
          if c = CHR ''<'' \<and> takeWhile (\<lambda>x. x \<noteq> CHR ''>'') cs \<noteq> [] then
            (case dropWhile (\<lambda>x. x \<noteq> CHR ''>'') cs of
               [] \<Rightarrow> None
             | _ # rest \<Rightarrow> Some rest)
          else None)"

lemma match_tag_shorter:
  "match_tag s = Some rest \<Longrightarrow> length rest < length s"
proof -
  assume m: "match_tag s = Some rest"
  then obtain c cs where s: "s = c # cs"
    by (cases s) (auto simp: match_tag_def)
  from m s obtain g where "dropWhile (\<lambda>x. x \<noteq> CHR ''>'') cs = g # rest"
    by (auto simp: match_tag_def split: if_splits list.splits)
  then have "length (g # rest) \<le> length cs"
    by (metis length_dropWhile_le)
  with s show ?thesis by simp
qed

function re_sub_tag :: "string \<Rightarrow> string" where
  "re_sub_tag [] = []"
| "re_sub_tag (c # cs) =
     (case match_tag (c # cs) of
        Some rest \<Rightarrow> re_sub_tag rest
      | None \<Rightarrow> c # re_sub_tag cs)"
  by pat_completeness auto
termination
proof (relation "measure length")
  fix c cs rest
  assume "match_tag (c # cs) = Some rest"
  then show "(rest, c # cs) \<in> measure length"
    using match_tag_shorter by fastforce
qed auto

fun re_search_tag :: "string \<Rightarrow> bool" where
  "re_search_tag [] = False"
| "re_search_tag (c # cs) =
     (case match_tag (c # cs) of Some _ \<Rightarrow> True | None \<Rightarrow> re_search_tag cs)"

definition clean_message :: "string \<Rightarrow> string" where
  "clean_message message = re_sub_tag message"

text \<open>
  The pattern in words: a tag is a \<open><\<close>, a non-empty run of characters other than
  \<open>>\<close>, and a \<open>>\<close>.
\<close>

definition is_tag :: "string \<Rightarrow> bool" where
  "is_tag t =
     (case t of
        [] \<Rightarrow> False
      | c # cs \<Rightarrow>
          c = CHR ''<'' \<and> cs \<noteq> [] \<and> last cs = CHR ''>'' \<and> butlast cs \<noteq> []
          \<and> CHR ''>'' \<notin> set (butlast cs))"

text \<open>
  A text cut into pieces, each a kept part followed by a tag, and a last kept part:
  \<open>with_tags\<close> is the text, \<open>without_tags\<close> the text with those tags taken out.
\<close>

definition with_tags :: "(string \<times> string) list \<Rightarrow> string \<Rightarrow> string" where
  "with_tags pieces rest = concat (map (\<lambda>(kept, tag). kept @ tag) pieces) @ rest"

definition without_tags :: "(string \<times> string) list \<Rightarrow> string \<Rightarrow> string" where
  "without_tags pieces rest = concat (map fst pieces) @ rest"

section \<open>Decimal numerals\<close>

text \<open>
  \<open>str(n)\<close> of an integer, and the zero-padded fields of \<open>strftime\<close>: the decimal
  digits, most significant first, a minus sign before a negative number.
\<close>

definition digit_char :: "nat \<Rightarrow> char" where
  "digit_char d = ''0123456789'' ! d"

fun decimal :: "nat \<Rightarrow> string" where
  "decimal n = (if n < 10 then [digit_char n] else decimal (n div 10) @ [digit_char (n mod 10)])"

declare decimal.simps [simp del]

definition py_str_int :: "int \<Rightarrow> string" where
  "py_str_int i = (if i < 0 then CHR ''-'' # decimal (nat (- i)) else decimal (nat i))"

definition zero_pad :: "nat \<Rightarrow> nat \<Rightarrow> string" where
  "zero_pad w n = replicate (w - length (decimal n)) (CHR ''0'') @ decimal n"

definition is_dec_digit :: "char \<Rightarrow> bool" where
  "is_dec_digit c = (c \<in> set ''0123456789'')"

text \<open>
  The source's word for "error" is Russian, six Cyrillic letters (transliterated
  \<open>oshibka\<close>); the constant is its UTF-8 encoding. \<open>get_balance\<close> answers with it on
  failure, and \<open>send_message\<close> puts it, with a colon and a space, before the error text
  of a reply.
\<close>

definition oshibka :: string where
  "oshibka = [CHR 0xD0, CHR 0x9E, CHR 0xD1, CHR 0x88, CHR 0xD0, CHR 0xB8,
              CHR 0xD0, CHR 0xB1, CHR 0xD0, CHR 0xBA, CHR 0xD0, CHR 0xB0]"

section \<open>ChatCache: the credential vault and the transcript store\<close>

text \<open>
  Modelled from the spec: the class \<open>ChatCache\<close> (\<open>utils/cache.py\<close>) is not among the
  sources; only its callers are. Its operations follow sections 3, 4.1 and 4.3 of the
  specification, under the names the callers use:
  \<open>has_auth_data\<close> is \<open>has_credential\<close>, \<open>save_auth_data\<close> is \<open>store_credential\<close>
  (its boolean result is the success of the write), \<open>check_pin\<close> is \<open>verify_pin\<close>,
  \<open>reset_auth_data\<close> is \<open>reset\<close>, \<open>save_message\<close> is \<open>append\<close>, \<open>get_chat_history\<close>
  is \<open>read_all\<close> and \<open>clear_history\<close> is \<open>clear\<close>.

  The verifier is "a value derived from the PIN": the derivation \<open>derive\<close> is a parameter,
  and so is the success \<open>ok\<close> of the write to storage. A write that fails leaves the
  record as it was. A row of the transcript is the tuple the callers unpack:
  \<open>(id, model, user_message, ai_response, timestamp, tokens)\<close>; the time stamp is the text
  the store returns, the model is \<open>None\<close> when no model is selected.
\<close>

record 'v credential_record =
  api_key :: string
  pin_verifier :: 'v

record entry =
  entry_id :: nat
  entry_model :: "string option"
  user_message :: string
  ai_response :: string
  timestamp :: string
  tokens :: int

record 'v chat_cache =
  credential :: "'v credential_record option"
  entries :: "entry list"
  next_id :: nat

datatype vault_error = PersistenceError

definition has_credential :: "'v chat_cache \<Rightarrow> bool" where
  "has_credential c = (credential c \<noteq> None)"

definition store_credential ::
  "(string \<Rightarrow> 'v) \<Rightarrow> bool \<Rightarrow> string \<Rightarrow> string \<Rightarrow> 'v chat_cache \<Rightarrow> vault_error + 'v chat_cache" where
  "store_credential derive ok key pin c =
     (if ok then Inr (c\<lparr>credential := Some \<lparr>api_key = key, pin_verifier = derive pin\<rparr>\<rparr>)
      else Inl PersistenceError)"

definition verify_pin :: "(string \<Rightarrow> 'v) \<Rightarrow> string \<Rightarrow> 'v chat_cache \<Rightarrow> bool" where
  "verify_pin derive candidate c =
     (case credential c of
        None \<Rightarrow> False
      | Some r \<Rightarrow> derive candidate = pin_verifier r)"

definition get_api_key :: "'v chat_cache \<Rightarrow> string option" where
  "get_api_key c = map_option api_key (credential c)"

definition reset :: "'v chat_cache \<Rightarrow> 'v chat_cache" where
  "reset c = c\<lparr>credential := None\<rparr>"

definition has_auth_data :: "'v chat_cache \<Rightarrow> bool" where
  "has_auth_data c = has_credential c"

definition save_auth_data ::
  "(string \<Rightarrow> 'v) \<Rightarrow> bool \<Rightarrow> string \<Rightarrow> string \<Rightarrow> 'v chat_cache \<Rightarrow> bool \<times> 'v chat_cache" where
  "save_auth_data derive ok key pin c =
     (case store_credential derive ok key pin c of
        Inr c' \<Rightarrow> (True, c')
      | Inl _ \<Rightarrow> (False, c))"

definition check_pin :: "(string \<Rightarrow> 'v) \<Rightarrow> string \<Rightarrow> 'v chat_cache \<Rightarrow> bool" where
  "check_pin derive pin c = verify_pin derive pin c"

definition reset_auth_data :: "'v chat_cache \<Rightarrow> 'v chat_cache" where
  "reset_auth_data c = reset c"

definition save_message ::
  "bool \<Rightarrow> string \<Rightarrow> string option \<Rightarrow> string \<Rightarrow> string \<Rightarrow> int \<Rightarrow> 'v chat_cache
     \<Rightarrow> vault_error + 'v chat_cache" where
  "save_message ok now model um resp tokens_used c =
     (if ok then
        Inr (c\<lparr>entries := entries c @
                 [\<lparr>entry_id = next_id c, entry_model = model, user_message = um,
                   ai_response = resp, timestamp = now, tokens = tokens_used\<rparr>],
               next_id := Suc (next_id c)\<rparr>)
      else Inl PersistenceError)"

definition get_chat_history :: "'v chat_cache \<Rightarrow> entry list" where
  "get_chat_history c = entries c"

definition clear_history :: "'v chat_cache \<Rightarrow> 'v chat_cache" where
  "clear_history c = c\<lparr>entries := []\<rparr>"

section \<open>The application state\<close>

text \<open>
  The widgets keep the attributes the handlers read and write. The texts shown to the
  user are Russian sentences in the source; a constructor of \<open>status_message\<close> stands
  for each, named after its meaning. \<open>page.update()\<close> and the \<open>update()\<close> of a widget
  redraw and change nothing here. Beside the widgets the state holds what the handlers
  act on: the cache, the key of the API client, the messages tracked for the analytics,
  the log, the calls of the API-completion client made so far (each with its message and
  model), and the files on disk.
\<close>

datatype color = BLUE_400 | RED_500 | GREEN_500

datatype status_message =
    NoMessage
  | EnterApiKey
  | CheckingKey
  | InvalidApiKey
  | SaveFailed
  | ErrorText string
  | EnterPin
  | PinNeedsFourDigits
  | PinDigitsOnly
  | WrongPin

record auth_screen =
  api_key_field_value :: "string option"
  api_key_field_border :: color
  auth_status_value :: status_message
  auth_status_color :: color
  auth_status_visible :: bool
  validate_button_disabled :: bool

record pin_screen =
  pin_field_value :: "string option"
  pin_field_border :: color
  pin_status_value :: status_message
  pin_status_color :: color
  pin_status_visible :: bool

datatype control = AuthScreenControl | PinScreenControl | MainColumn

datatype chat_control = Bubble string bool | ProgressRing

datatype exn = ApiException string | MalformedResponse | StoreFailure | WriteFailure

datatype dialog =
    PinDialog string
  | ResetDialog
  | SendErrorSnack exn
  | SaveErrorSnack exn
  | SavedSnack string

datatype balance_value = BalanceLoading | BalanceText string

datatype log_event =
    LogAuthSuccess
  | LogKeyValidated
  | LogKeyReset
  | LogAuthFound
  | LogAuthNotFound
  | LogStarted
  | LogBalanceUpdated string
  | LogBalanceError string
  | LogApiError string
  | LogSendError exn
  | LogMetrics
  | LogSaved string
  | LogSaveError exn

record track =
  track_model :: "string option"
  track_message_length :: nat
  track_response_time :: real
  track_tokens_used :: int

record 'v app =
  cache :: "'v chat_cache"
  client_api_key :: "string option"
  is_authenticated :: bool
  auth_screen :: "auth_screen option"
  pin_screen :: "pin_screen option"
  page_controls :: "control list"
  overlay :: "(dialog \<times> bool) list"
  model_dropdown_value :: "string option"
  chat_history :: "chat_control list"
  message_input_value :: "string option"
  message_input_border :: "color option"
  balance_text_value :: balance_value
  balance_text_color :: "color option"
  tracked :: "track list"
  log :: "log_event list"
  api_calls :: "(string \<times> string option) list"
  files :: "string \<rightharpoonup> string"

text \<open>
  What the world outside the process answers during one handler: the reply of the
  API-completion call (\<open>Inl\<close> when the client raises), the reply of \<open>get_balance\<close>, the
  raw draws of the random generator, whether a write to storage or to the export file
  succeeds, the time stamp the store gives an entry, the measured response time, and the
  wall clock in local time and in UTC.
\<close>

record api_response =
  resp_error :: "string option"
  resp_content :: "string option"
  resp_total_tokens :: "int option"

record datetime =
  year :: nat
  month :: nat
  day :: nat
  hour :: nat
  minute :: nat
  second :: nat

record io =
  api_reply :: "exn + api_response"
  balance_reply :: "string + string"
  draws :: "nat \<Rightarrow> nat"
  write_ok :: bool
  store_time :: string
  elapsed :: real
  local_now :: datetime
  utc_now :: datetime

text \<open>
  The parameters of the program that are not among the sources: the derivation of the
  PIN verifier, Python's \<open>str.isdigit\<close> (a table of Unicode), and the models the API
  client offers, as pairs of identifier and name.
\<close>

record 'v env =
  derive :: "string \<Rightarrow> 'v"
  isdigit :: "string \<Rightarrow> bool"
  available_models :: "(string \<times> string) list"

definition MessageBubble :: "string \<Rightarrow> bool \<Rightarrow> chat_control" where
  "MessageBubble message is_user = Bubble (clean_message message) is_user"

definition AuthScreen_init :: auth_screen where
  "AuthScreen_init =
     \<lparr>api_key_field_value = None, api_key_field_border = BLUE_400,
      auth_status_value = NoMessage, auth_status_color = RED_500,
      auth_status_visible = False, validate_button_disabled = False\<rparr>"

definition PinScreen_init :: pin_screen where
  "PinScreen_init =
     \<lparr>pin_field_value = None, pin_field_border = BLUE_400,
      pin_status_value = NoMessage, pin_status_color = RED_500,
      pin_status_visible = False\<rparr>"

definition ChatApp_init :: "'v chat_cache \<Rightarrow> string option \<Rightarrow> (string \<rightharpoonup> string) \<Rightarrow> 'v app" where
  "ChatApp_init stored key disk =
     \<lparr>cache = stored, client_api_key = key, is_authenticated = False,
      auth_screen = None, pin_screen = None, page_controls = [], overlay = [],
      model_dropdown_value = None, chat_history = [], message_input_value = None,
      message_input_border = None, balance_text_value = BalanceLoading,
      balance_text_color = None, tracked = [], log = [], api_calls = [], files = disk\<rparr>"

definition exports_dir :: string where
  "exports_dir = ''exports''"

subsection \<open>ChatApp: balance, history, the main interface\<close>

definition ChatApp_update_balance :: "io \<Rightarrow> 'v app \<Rightarrow> 'v app" where
  "ChatApp_update_balance w a =
     (case balance_reply w of
        Inr balance \<Rightarrow>
          a\<lparr>balance_text_value := BalanceText balance,
            balance_text_color := Some (if balance = oshibka then RED_500 else GREEN_500),
            log := log a @ [LogBalanceUpdated balance]\<rparr>
      | Inl e \<Rightarrow>
          a\<lparr>balance_text_value := BalanceText oshibka,
            balance_text_color := Some RED_500,
            log := log a @ [LogBalanceError e]\<rparr>)"

definition ChatApp_load_chat_history :: "'v app \<Rightarrow> 'v app" where
  "ChatApp_load_chat_history a =
     a\<lparr>chat_history := chat_history a @
          concat (map (\<lambda>msg. [MessageBubble (user_message msg) True,
                               MessageBubble (ai_response msg) False])
                      (rev (get_chat_history (cache a))))\<rparr>"

definition ChatApp_initialize_main_interface :: "'v env \<Rightarrow> io \<Rightarrow> 'v app \<Rightarrow> 'v app" where
  "ChatApp_initialize_main_interface e w a =
     (let a1 = a\<lparr>page_controls := [],
                 model_dropdown_value :=
                   (case available_models e of [] \<Rightarrow> None | m # _ \<Rightarrow> Some (fst m)),
                 chat_history := [],
                 message_input_value := None,
                 message_input_border := None\<rparr>;
          a2 = ChatApp_load_chat_history a1;
          a3 = a2\<lparr>page_controls := page_controls a2 @ [MainColumn]\<rparr>
      in ChatApp_update_balance w a3)"

subsection \<open>ChatApp.main and its callbacks\<close>

definition on_auth_success :: "'v env \<Rightarrow> io \<Rightarrow> 'v app \<Rightarrow> 'v app" where
  "on_auth_success e w a =
     ChatApp_initialize_main_interface e w
       (a\<lparr>log := log a @ [LogAuthSuccess], is_authenticated := True\<rparr>)"

definition on_api_key_validated :: "'v env \<Rightarrow> io \<Rightarrow> 'v app \<Rightarrow> 'v app" where
  "on_api_key_validated e w a =
     (let a1 = a\<lparr>log := log a @ [LogKeyValidated]\<rparr>;
          key = get_api_key (cache a1)
      in on_auth_success e w (if py_not key then a1 else a1\<lparr>client_api_key := key\<rparr>))"

definition on_reset_api_key :: "'v app \<Rightarrow> 'v app" where
  "on_reset_api_key a =
     a\<lparr>log := log a @ [LogKeyReset],
       is_authenticated := False,
       auth_screen := Some AuthScreen_init,
       page_controls := [AuthScreenControl]\<rparr>"

definition ChatApp_main :: "'v app \<Rightarrow> 'v app" where
  "ChatApp_main a =
     (let a1 =
        (if has_auth_data (cache a) then
           a\<lparr>log := log a @ [LogAuthFound],
             pin_screen := Some PinScreen_init,
             page_controls := page_controls a @ [PinScreenControl]\<rparr>
         else
           a\<lparr>log := log a @ [LogAuthNotFound],
             auth_screen := Some AuthScreen_init,
             page_controls := page_controls a @ [AuthScreenControl]\<rparr>)
      in a1\<lparr>log := log a1 @ [LogStarted]\<rparr>)"

text \<open>
  The state of the Session Gate (section 3 of the specification), read off the
  application: authenticated once the flag is set; otherwise locked while the page shows
  the PIN screen, and on the API-key screen either a PIN has just been issued (its dialog
  is open) or there is no credential yet. \<open>PendingValidation\<close> lasts for the call of
  the validation collaborator, inside one handler.
\<close>

datatype session_state = NoCredential | PendingValidation | PinIssued string | Locked | Authenticated

fun open_pin_dialog :: "(dialog \<times> bool) list \<Rightarrow> string option" where
  "open_pin_dialog [] = None"
| "open_pin_dialog ((PinDialog pin, True) # ds) = Some pin"
| "open_pin_dialog (_ # ds) = open_pin_dialog ds"

definition session_state :: "'v app \<Rightarrow> session_state" where
  "session_state a =
     (if is_authenticated a then Authenticated
      else if page_controls a = [PinScreenControl] then Locked
      else (case open_pin_dialog (overlay a) of
              Some pin \<Rightarrow> PinIssued pin
            | None \<Rightarrow> NoCredential))"

subsection \<open>PinScreen\<close>

definition PinScreen_show_error :: "status_message \<Rightarrow> pin_screen \<Rightarrow> pin_screen" where
  "PinScreen_show_error message s =
     s\<lparr>pin_status_value := message,
       pin_status_color := RED_500,
       pin_status_visible := True,
       pin_field_border := RED_500\<rparr>"

text \<open>
  \<open>validate_pin\<close>: the text of the PIN field goes through three checks (not empty, four
  characters, digits only) before the cache is asked; only a PIN the cache accepts calls
  \<open>on_pin_validated\<close>, which \<open>ChatApp.main\<close> set to \<open>on_auth_success\<close>.
\<close>

definition PinScreen_validate_pin :: "'v env \<Rightarrow> io \<Rightarrow> 'v app \<Rightarrow> 'v app" where
  "PinScreen_validate_pin e w a =
     (case pin_screen a of
        None \<Rightarrow> a
      | Some s \<Rightarrow>
          (case pin_field_value s of
             None \<Rightarrow> a\<lparr>pin_screen := Some (PinScreen_show_error EnterPin s)\<rparr>
           | Some pin \<Rightarrow>
               if pin = [] then
                 a\<lparr>pin_screen := Some (PinScreen_show_error EnterPin s)\<rparr>
               else if py_len pin \<noteq> 4 then
                 a\<lparr>pin_screen := Some (PinScreen_show_error PinNeedsFourDigits s)\<rparr>
               else if \<not> isdigit e pin then
                 a\<lparr>pin_screen := Some (PinScreen_show_error PinDigitsOnly s)\<rparr>
               else if check_pin (derive e) pin (cache a) then
                 on_auth_success e w a
               else
                 a\<lparr>pin_screen := Some (PinScreen_show_error WrongPin s)\<rparr>))"

text \<open>The user types a PIN into the field and presses the button.\<close>

definition submit_pin :: "'v env \<Rightarrow> io \<Rightarrow> string \<Rightarrow> 'v app \<Rightarrow> 'v app" where
  "submit_pin e w p a =
     PinScreen_validate_pin e w
       (a\<lparr>pin_screen := map_option (\<lambda>s. s\<lparr>pin_field_value := Some p\<rparr>) (pin_screen a)\<rparr>)"

definition close_dialog :: "dialog \<Rightarrow> (dialog \<times> bool) list \<Rightarrow> (dialog \<times> bool) list" where
  "close_dialog d ov = map (\<lambda>(x, opened). if x = d then (x, False) else (x, opened)) ov"

definition PinScreen_confirm_reset_api_key :: "'v app \<Rightarrow> 'v app" where
  "PinScreen_confirm_reset_api_key a = a\<lparr>overlay := overlay a @ [(ResetDialog, True)]\<rparr>"

definition reset_confirmed :: "'v app \<Rightarrow> 'v app" where
  "reset_confirmed a =
     on_reset_api_key
       (a\<lparr>cache := reset_auth_data (cache a),
          overlay := close_dialog ResetDialog (overlay a)\<rparr>)"

subsection \<open>AuthScreen\<close>

text \<open>
  \<open>random.randint(a, b)\<close> gives an integer of the closed range; the raw draw of the
  generator is a parameter. The PIN is the four draws of \<open>randint(0, 9)\<close>, each printed
  by \<open>str\<close>, joined.
\<close>

definition randint :: "int \<Rightarrow> int \<Rightarrow> nat \<Rightarrow> int" where
  "randint a b raw = a + int (raw mod nat (b - a + 1))"

definition generate_pin :: "(nat \<Rightarrow> nat) \<Rightarrow> string" where
  "generate_pin rnd = concat (map (\<lambda>i. py_str_int (randint 0 9 (rnd i))) [0..<4])"

definition AuthScreen_show_error :: "status_message \<Rightarrow> auth_screen \<Rightarrow> auth_screen" where
  "AuthScreen_show_error message s =
     s\<lparr>auth_status_value := message,
       auth_status_color := RED_500,
       auth_status_visible := True,
       validate_button_disabled := False,
       api_key_field_border := RED_500\<rparr>"

definition AuthScreen_show_pin_dialog :: "string \<Rightarrow> 'v app \<Rightarrow> 'v app" where
  "AuthScreen_show_pin_dialog pin a = a\<lparr>overlay := overlay a @ [(PinDialog pin, True)]\<rparr>"

definition AuthScreen_validate_api_key :: "'v env \<Rightarrow> io \<Rightarrow> 'v app \<Rightarrow> 'v app" where
  "AuthScreen_validate_api_key e w a =
     (case auth_screen a of
        None \<Rightarrow> a
      | Some s \<Rightarrow>
          (case api_key_field_value s of
             None \<Rightarrow> a\<lparr>auth_screen := Some (AuthScreen_show_error EnterApiKey s)\<rparr>
           | Some key \<Rightarrow>
               if key = [] then
                 a\<lparr>auth_screen := Some (AuthScreen_show_error EnterApiKey s)\<rparr>
               else
                 (let s1 = s\<lparr>validate_button_disabled := True,
                              auth_status_value := CheckingKey,
                              auth_status_color := BLUE_400,
                              auth_status_visible := True\<rparr>;
                      original_key = client_api_key a;
                      a1 = a\<lparr>auth_screen := Some s1, client_api_key := Some key\<rparr>
                  in case balance_reply w of
                       Inl ex \<Rightarrow>
                         a1\<lparr>auth_screen :=
                              Some (AuthScreen_show_error (ErrorText (oshibka @ '': '' @ ex)) s1)\<rparr>
                     | Inr balance \<Rightarrow>
                         if balance = oshibka then
                           a1\<lparr>auth_screen := Some (AuthScreen_show_error InvalidApiKey s1),
                              client_api_key := original_key\<rparr>
                         else
                           (let pin = generate_pin (draws w);
                                (success, stored) =
                                  save_auth_data (derive e) (write_ok w) key pin (cache a1);
                                a2 = a1\<lparr>cache := stored\<rparr>
                            in if success then AuthScreen_show_pin_dialog pin a2
                               else a2\<lparr>auth_screen := Some (AuthScreen_show_error SaveFailed s1),
                                       client_api_key := original_key\<rparr>))))"

text \<open>The button of the PIN dialog: the dialog closes and \<open>on_api_key_validated\<close> runs.\<close>

definition pin_dialog_close :: "'v env \<Rightarrow> io \<Rightarrow> string \<Rightarrow> 'v app \<Rightarrow> 'v app" where
  "pin_dialog_close e w pin a =
     on_api_key_validated e w (a\<lparr>overlay := close_dialog (PinDialog pin) (overlay a)\<rparr>)"

subsection \<open>ChatApp.send_message\<close>

definition show_error_snack :: "dialog \<Rightarrow> 'v app \<Rightarrow> 'v app" where
  "show_error_snack snack a = a\<lparr>overlay := overlay a @ [(snack, True)]\<rparr>"

text \<open>The \<open>except\<close> branch of \<open>send_message\<close>.\<close>

definition send_failed :: "exn \<Rightarrow> 'v app \<Rightarrow> 'v app" where
  "send_failed ex a =
     show_error_snack (SendErrorSnack ex)
       (a\<lparr>log := log a @ [LogSendError ex], message_input_border := Some RED_500\<rparr>)"

text \<open>
  The reply of the API client is a dictionary: \<open>resp_error\<close> is its entry \<open>"error"\<close>,
  \<open>resp_content\<close> the text at \<open>["choices"][0]["message"]["content"]\<close> (reading it
  raises when the path is not there), \<open>resp_total_tokens\<close> the entry \<open>"total_tokens"\<close> of
  \<open>"usage"\<close>, with 0 for a missing one. The progress ring is the object the handler added
  itself, after the bubble of the user's message, and that one is removed.
\<close>

definition ChatApp_send_message :: "io \<Rightarrow> string option \<Rightarrow> 'v app \<Rightarrow> 'v app" where
  "ChatApp_send_message w message a =
     (case message of
        None \<Rightarrow> a
      | Some user_msg \<Rightarrow>
          if user_msg = [] then a
          else
            (let a1 = a\<lparr>message_input_border := Some BLUE_400,
                         message_input_value := Some [],
                         chat_history := chat_history a @ [MessageBubble user_msg True, ProgressRing],
                         api_calls := api_calls a @ [(user_msg, model_dropdown_value a)]\<rparr>
             in case api_reply w of
                  Inl ex \<Rightarrow> send_failed ex a1
                | Inr response \<Rightarrow>
                    (let a2 = a1\<lparr>chat_history := chat_history a @ [MessageBubble user_msg True]\<rparr>
                     in case (case resp_error response of
                                Some err \<Rightarrow>
                                  Inr (oshibka @ '': '' @ err, 0,
                                       a2\<lparr>log := log a2 @ [LogApiError err]\<rparr>)
                              | None \<Rightarrow>
                                  (case resp_content response of
                                     None \<Rightarrow> Inl (MalformedResponse, a2)
                                   | Some content \<Rightarrow>
                                       Inr (content,
                                            (case resp_total_tokens response of
                                               None \<Rightarrow> 0 | Some t \<Rightarrow> t),
                                            a2))) of
                          Inl (ex, a3) \<Rightarrow> send_failed ex a3
                        | Inr (response_text, tokens_used, a3) \<Rightarrow>
                            (case save_message (write_ok w) (store_time w) (model_dropdown_value a3)
                                    user_msg response_text tokens_used (cache a3) of
                               Inl _ \<Rightarrow> send_failed StoreFailure a3
                             | Inr stored \<Rightarrow>
                                 (let a4 = a3\<lparr>cache := stored,
                                              chat_history := chat_history a3 @
                                                [MessageBubble response_text False],
                                              tracked := tracked a3 @
                                                [\<lparr>track_model = model_dropdown_value a3,
                                                  track_message_length = py_len user_msg,
                                                  track_response_time = elapsed w,
                                                  track_tokens_used = tokens_used\<rparr>]\<rparr>;
                                      a5 = ChatApp_update_balance w a4
                                  in a5\<lparr>log := log a5 @ [LogMetrics]\<rparr>)))))"

section \<open>The export format\<close>

text \<open>
  \<open>json.dump(dialog_data, f, ensure_ascii=False, indent=4)\<close> writes the document, and
  reading it back is \<open>json.load\<close>. Both are the standard library's; they are modelled
  here on the values an export holds: \<open>null\<close>, booleans, integers, texts, lists and
  dictionaries (a dictionary as the list of its items, in order).
\<close>

datatype json =
    JNull
  | JBool bool
  | JInt int
  | JStr string
  | JArr "json list"
  | JObj "(string \<times> json) list"

subsection \<open>Writing\<close>

text \<open>
  With \<open>ensure_ascii=False\<close> a text is written between quotes with only the quote, the
  backslash and the control characters below \<open>0x20\<close> escaped: \<open>\b\<close>, \<open>\t\<close>, \<open>\n\<close>,
  \<open>\f\<close> and \<open>\r\<close> by their letter, the others as \<open>\u00XX\<close> in lower-case hexadecimal.
  Every other character, so every byte of a character outside ASCII, is written as it is.
\<close>

definition quote :: char where
  "quote = CHR 0x22"

definition backslash :: char where
  "backslash = CHR 0x5C"

definition newline :: char where
  "newline = CHR 0x0A"

definition hex_char :: "nat \<Rightarrow> char" where
  "hex_char d = ''0123456789abcdef'' ! d"

definition escape_char :: "char \<Rightarrow> string" where
  "escape_char c =
     (if c = quote then [backslash, quote]
      else if c = backslash then [backslash, backslash]
      else if c = CHR 0x08 then [backslash, CHR ''b'']
      else if c = CHR 0x09 then [backslash, CHR ''t'']
      else if c = CHR 0x0A then [backslash, CHR ''n'']
      else if c = CHR 0x0C then [backslash, CHR ''f'']
      else if c = CHR 0x0D then [backslash, CHR ''r'']
      else if (of_char c :: nat) < 32 then
        [backslash, CHR ''u'', CHR ''0'', CHR ''0'',
         hex_char ((of_char c :: nat) div 16), hex_char ((of_char c :: nat) mod 16)]
      else [c])"

definition encode_basestring :: "string \<Rightarrow> string" where
  "encode_basestring s = quote # concat (map escape_char s) @ [quote]"

text \<open>
  With \<open>indent=4\<close> every item of a list or dictionary that is not empty stands on a line
  of its own, indented by four spaces for each level; the items are separated by a comma,
  a key from its value by a colon and a space.
\<close>

fun join :: "string \<Rightarrow> string list \<Rightarrow> string" where
  "join sep [] = []"
| "join sep [x] = x"
| "join sep (x # y # ys) = x @ sep @ join sep (y # ys)"

definition newline_indent :: "nat \<Rightarrow> string" where
  "newline_indent level = newline # replicate (4 * level) (CHR '' '')"

fun json_dumps :: "nat \<Rightarrow> json \<Rightarrow> string" where
  "json_dumps level JNull = ''null''"
| "json_dumps level (JBool b) = (if b then ''true'' else ''false'')"
| "json_dumps level (JInt i) = py_str_int i"
| "json_dumps level (JStr s) = encode_basestring s"
| "json_dumps level (JArr vs) =
     (if vs = [] then ''[]''
      else ''['' @ newline_indent (Suc level)
           @ join ('','' @ newline_indent (Suc level)) (map (json_dumps (Suc level)) vs)
           @ newline_indent level @ '']'')"
| "json_dumps level (JObj kvs) =
     (if kvs = [] then ''{}''
      else ''{'' @ newline_indent (Suc level)
           @ join ('','' @ newline_indent (Suc level))
               (map (\<lambda>kv. encode_basestring (fst kv) @ '': '' @ json_dumps (Suc level) (snd kv)) kvs)
           @ newline_indent level @ ''}'')"

definition json_dump :: "json \<Rightarrow> string" where
  "json_dump v = json_dumps 0 v"

subsection \<open>Reading\<close>

text \<open>
  The reader follows \<open>json.loads\<close> on the documents that \<open>json.dump\<close> writes: white
  space is skipped between the tokens, a text ends at the first quote that is not escaped
  and may not hold a raw control character, a number is an optional minus sign and either
  a single 0 or digits that do not start with 0. What an export never holds is refused
  (\<open>None\<close>): a number with a fraction or an exponent, and an escape \<open>\u\<close> of a
  character outside ASCII.
\<close>

definition is_ws :: "char \<Rightarrow> bool" where
  "is_ws c = (c = CHR '' '' \<or> c = CHR 0x09 \<or> c = CHR 0x0A \<or> c = CHR 0x0D)"

definition skip_ws :: "string \<Rightarrow> string" where
  "skip_ws s = dropWhile is_ws s"

definition hex_val :: "char \<Rightarrow> nat option" where
  "hex_val c =
     (let n = (of_char c :: nat) in
      if 48 \<le> n \<and> n < 58 then Some (n - 48)
      else if 97 \<le> n \<and> n < 103 then Some (n - 87)
      else if 65 \<le> n \<and> n < 71 then Some (n - 55)
      else None)"

fun hex_value :: "string \<Rightarrow> nat \<Rightarrow> nat option" where
  "hex_value [] acc = Some acc"
| "hex_value (c # cs) acc =
     (case hex_val c of None \<Rightarrow> None | Some d \<Rightarrow> hex_value cs (16 * acc + d))"

definition unescape :: "char \<Rightarrow> char option" where
  "unescape e =
     (if e = quote then Some quote
      else if e = backslash then Some backslash
      else if e = CHR ''/'' then Some (CHR ''/'')
      else if e = CHR ''b'' then Some (CHR 0x08)
      else if e = CHR ''f'' then Some (CHR 0x0C)
      else if e = CHR ''n'' then Some (CHR 0x0A)
      else if e = CHR ''r'' then Some (CHR 0x0D)
      else if e = CHR ''t'' then Some (CHR 0x09)
      else None)"

fun scanstring :: "string \<Rightarrow> (string \<times> string) option" where
  "scanstring [] = None"
| "scanstring (c # cs) =
     (if c = quote then Some ([], cs)
      else if c = backslash then
        (case cs of
           [] \<Rightarrow> None
         | e # r \<Rightarrow>
             if e = CHR ''u'' then
               (if length r < 4 then None
                else case hex_value (take 4 r) 0 of
                       None \<Rightarrow> None
                     | Some n \<Rightarrow>
                         if n < 128 then
                           (case scanstring (drop 4 r) of
                              None \<Rightarrow> None
                            | Some (s, rest) \<Rightarrow> Some (char_of n # s, rest))
                         else None)
             else
               (case unescape e of
                  None \<Rightarrow> None
                | Some x \<Rightarrow>
                    (case scanstring r of
                       None \<Rightarrow> None
                     | Some (s, rest) \<Rightarrow> Some (x # s, rest))))
      else if (of_char c :: nat) < 32 then None
      else
        (case scanstring cs of
           None \<Rightarrow> None
         | Some (s, rest) \<Rightarrow> Some (c # s, rest)))"

definition digit_val :: "char \<Rightarrow> nat" where
  "digit_val c = (of_char c :: nat) - 48"

definition digits_value :: "string \<Rightarrow> nat" where
  "digits_value ds = foldl (\<lambda>acc c. 10 * acc + digit_val c) 0 ds"

definition float_mark :: "string \<Rightarrow> bool" where
  "float_mark rest =
     (case rest of [] \<Rightarrow> False | c # _ \<Rightarrow> c = CHR ''.'' \<or> c = CHR ''e'' \<or> c = CHR ''E'')"

definition scan_digits :: "string \<Rightarrow> string" where
  "scan_digits s =
     (case s of
        [] \<Rightarrow> []
      | c # _ \<Rightarrow> if c = CHR ''0'' then [c] else takeWhile is_dec_digit s)"

definition scan_unsigned :: "string \<Rightarrow> (nat \<times> string) option" where
  "scan_unsigned s =
     (let ds = scan_digits s; rest = drop (length ds) s
      in if ds = [] \<or> float_mark rest then None else Some (digits_value ds, rest))"

definition scan_number :: "string \<Rightarrow> (int \<times> string) option" where
  "scan_number s =
     (case s of
        [] \<Rightarrow> None
      | c # cs \<Rightarrow>
          if c = CHR ''-'' then
            (case scan_unsigned cs of None \<Rightarrow> None | Some (n, rest) \<Rightarrow> Some (- int n, rest))
          else
            (case scan_unsigned s of None \<Rightarrow> None | Some (n, rest) \<Rightarrow> Some (int n, rest)))"

lemma scanstring_shorter: "scanstring s = Some (t, rest) \<Longrightarrow> length rest < length s"
proof (induction s arbitrary: t rest rule: scanstring.induct)
  case 1
  then show ?case by simp
next
  case (2 c cs)
  show ?case
  proof (cases "c = quote")
    case True
    with 2 show ?thesis by simp
  next
    case nq: False
    show ?thesis
    proof (cases "c = backslash")
      case False
      with nq 2 show ?thesis
        by (fastforce split: if_splits option.splits)
    next
      case True
      with nq "2.prems" obtain e r where cs: "cs = e # r"
        by (cases cs) simp_all
      show ?thesis
      proof (cases "e = CHR ''u''")
        case True
        with nq \<open>c = backslash\<close> cs "2.prems" obtain n s' where
          h: "\<not> length r < 4" "hex_value (take 4 r) 0 = Some n" "n < 128"
            "scanstring (drop 4 r) = Some (s', rest)"
          by (auto split: if_splits option.splits)
        from "2.IH"(1) [OF nq \<open>c = backslash\<close> cs True h(1) h(2) h(3) h(4)]
        have "length rest < length (drop 4 r)" .
        with cs show ?thesis by simp
      next
        case False
        with nq \<open>c = backslash\<close> cs "2.prems" obtain x s' where
          h: "unescape e = Some x" "scanstring r = Some (s', rest)"
          by (auto split: if_splits option.splits)
        from "2.IH"(2) [OF nq \<open>c = backslash\<close> cs False h(1) h(2)]
        have "length rest < length r" .
        with cs show ?thesis by simp
      qed
    qed
  qed
qed


lemma skip_ws_length: "length (skip_ws s) \<le> length s"
  unfolding skip_ws_def by (rule length_dropWhile_le)

function parse_value :: "string \<Rightarrow> (json \<times> string) option"
  and parse_elements :: "string \<Rightarrow> (json list \<times> string) option"
  and parse_members :: "string \<Rightarrow> ((string \<times> json) list \<times> string) option"
where
  "parse_value s =
     (case s of
        [] \<Rightarrow> None
      | c # cs \<Rightarrow>
          if c = quote then
            (case scanstring cs of None \<Rightarrow> None | Some (t, rest) \<Rightarrow> Some (JStr t, rest))
          else if c = CHR ''['' then
            (case skip_ws cs of
               [] \<Rightarrow> None
             | d # ds \<Rightarrow>
                 if d = CHR '']'' then Some (JArr [], ds)
                 else (case parse_elements (d # ds) of
                         None \<Rightarrow> None
                       | Some (vs, rest) \<Rightarrow> Some (JArr vs, rest)))
          else if c = CHR ''{'' then
            (case skip_ws cs of
               [] \<Rightarrow> None
             | d # ds \<Rightarrow>
                 if d = CHR ''}'' then Some (JObj [], ds)
                 else (case parse_members (d # ds) of
                         None \<Rightarrow> None
                       | Some (kvs, rest) \<Rightarrow> Some (JObj kvs, rest)))
          else if c = CHR ''n'' then
            (if take 3 cs = ''ull'' then Some (JNull, drop 3 cs) else None)
          else if c = CHR ''t'' then
            (if take 3 cs = ''rue'' then Some (JBool True, drop 3 cs) else None)
          else if c = CHR ''f'' then
            (if take 4 cs = ''alse'' then Some (JBool False, drop 4 cs) else None)
          else
            (case scan_number s of None \<Rightarrow> None | Some (i, rest) \<Rightarrow> Some (JInt i, rest)))"
| "parse_elements s =
     (case parse_value s of
        None \<Rightarrow> None
      | Some (v, r) \<Rightarrow>
          if length r < length s then
            (case skip_ws r of
               [] \<Rightarrow> None
             | d # ds \<Rightarrow>
                 if d = CHR '']'' then Some ([v], ds)
                 else if d = CHR '','' then
                   (case parse_elements (skip_ws ds) of
                      None \<Rightarrow> None
                    | Some (vs, rest) \<Rightarrow> Some (v # vs, rest))
                 else None)
          else None)"
| "parse_members s =
     (case s of
        [] \<Rightarrow> None
      | c # cs \<Rightarrow>
          if c = quote then
            (case scanstring cs of
               None \<Rightarrow> None
             | Some (k, r) \<Rightarrow>
                 (case skip_ws r of
                    [] \<Rightarrow> None
                  | d # ds \<Rightarrow>
                      if d = CHR '':'' then
                        (case parse_value (skip_ws ds) of
                           None \<Rightarrow> None
                         | Some (v, r2) \<Rightarrow>
                             if length r2 < length s then
                               (case skip_ws r2 of
                                  [] \<Rightarrow> None
                                | x # xs \<Rightarrow>
                                    if x = CHR ''}'' then Some ([(k, v)], xs)
                                    else if x = CHR '','' then
                                      (case parse_members (skip_ws xs) of
                                         None \<Rightarrow> None
                                       | Some (kvs, rest) \<Rightarrow> Some ((k, v) # kvs, rest))
                                    else None)
                             else None)
                      else None))
          else None)"
  by pat_completeness auto
termination
proof (relation "measures [\<lambda>x. case x of Inl s \<Rightarrow> length s | Inr (Inl s) \<Rightarrow> length s | Inr (Inr s) \<Rightarrow> length s,
                           \<lambda>x. case x of Inl s \<Rightarrow> 0 | Inr (Inl s) \<Rightarrow> 1 | Inr (Inr s) \<Rightarrow> 1]",
       goal_cases)
  case 1
  then show ?case by simp
next
  case (2 s c cs d ds)
  then show ?case using skip_ws_length [of cs] by simp
next
  case (3 s c cs d ds)
  then show ?case using skip_ws_length [of cs] by simp
next
  case (4 s)
  then show ?case by simp
next
  case (5 s p v r d ds)
  then show ?case using skip_ws_length [of r] skip_ws_length [of ds] by simp
next
  case (6 s c cs p k r d ds)
  then show ?case
    using skip_ws_length [of r] skip_ws_length [of ds] scanstring_shorter [of cs k r] by simp
next
  case (7 s c cs p k r d ds q v r2 x xs)
  then show ?case
    using skip_ws_length [of r2] skip_ws_length [of xs] by simp
qed

declare parse_value.simps [simp del] parse_elements.simps [simp del] parse_members.simps [simp del]

definition json_loads :: "string \<Rightarrow> json option" where
  "json_loads s =
     (case parse_value (skip_ws s) of
        None \<Rightarrow> None
      | Some (v, rest) \<Rightarrow> if skip_ws rest = [] then Some v else None)"


text \<open>What may follow a number: the end of the text, or a character that cannot continue it.\<close>

definition number_end :: "string \<Rightarrow> bool" where
  "number_end rest =
     (case rest of
        [] \<Rightarrow> True
      | c # _ \<Rightarrow> \<not> is_dec_digit c \<and> c \<noteq> CHR ''.'' \<and> c \<noteq> CHR ''e'' \<and> c \<noteq> CHR ''E'')"

text \<open>A text that begins with a character that is not white space, as every written value does.\<close>

definition starts_value :: "string \<Rightarrow> bool" where
  "starts_value d = (case d of [] \<Rightarrow> False | c # _ \<Rightarrow> \<not> is_ws c)"

section \<open>ChatApp.save_dialog\<close>

text \<open>
  The dictionary written for a row of the history: \<open>str(msg[4])\<close> for the time stamp
  (\<open>str\<close> of a text is the text itself), and \<open>msg[1]\<close>, \<open>msg[2]\<close>, \<open>msg[3]\<close>, \<open>msg[5]\<close>
  as they are; \<open>None\<close> is written as \<open>null\<close>. The identifier \<open>msg[0]\<close> is not exported.
\<close>

definition str_text :: "string \<Rightarrow> string" where
  "str_text s = s"

definition json_of_optional :: "string option \<Rightarrow> json" where
  "json_of_optional x = (case x of None \<Rightarrow> JNull | Some s \<Rightarrow> JStr s)"

definition export_row :: "entry \<Rightarrow> json" where
  "export_row msg =
     JObj [(''timestamp'', JStr (str_text (timestamp msg))),
           (''model'', json_of_optional (entry_model msg)),
           (''user_message'', JStr (user_message msg)),
           (''ai_response'', JStr (ai_response msg)),
           (''tokens'', JInt (tokens msg))]"

definition dialog_data :: "entry list \<Rightarrow> json" where
  "dialog_data history = JArr (map export_row history)"

text \<open>
  \<open>datetime.now()\<close>, called without a time zone, is the wall clock in local time.
  \<open>strftime("%Y%m%d_%H%M%S")\<close> prints the month, the day, the hour, the minute and the
  second zero-padded to two digits. The year is printed by the C library of the platform:
  in decimal, and on Linux without padding, so that a year below 1000 has fewer than four
  digits (platforms that pad it agree from the year 1000 on).
\<close>

definition datetime_now :: "io \<Rightarrow> datetime" where
  "datetime_now w = local_now w"

definition strftime :: "datetime \<Rightarrow> string" where
  "strftime t =
     decimal (year t) @ zero_pad 2 (month t) @ zero_pad 2 (day t) @ ''_''
     @ zero_pad 2 (hour t) @ zero_pad 2 (minute t) @ zero_pad 2 (second t)"

definition export_filename :: "io \<Rightarrow> string" where
  "export_filename w = exports_dir @ ''/chat_history_'' @ strftime (datetime_now w) @ ''.json''"

text \<open>
  The file is opened for writing, which replaces a file of the same name. When the write
  fails the \<open>except\<close> branch logs the error and shows it.
\<close>

definition ChatApp_save_dialog :: "io \<Rightarrow> 'v app \<Rightarrow> 'v app" where
  "ChatApp_save_dialog w a =
     (let history = get_chat_history (cache a);
          filename = export_filename w
      in if write_ok w then
           a\<lparr>files := (files a)(filename \<mapsto> json_dump (dialog_data history)),
             overlay := overlay a @ [(SavedSnack filename, True)],
             log := log a @ [LogSaved filename]\<rparr>
         else
           show_error_snack (SaveErrorSnack WriteFailure)
             (a\<lparr>log := log a @ [LogSaveError WriteFailure]\<rparr>))"

subsection \<open>Reading an export back\<close>

text \<open>
  The five fields of a record of the export format, and the reading of a document: the
  document is parsed, and each dictionary of the list gives its five entries (as in a
  Python dictionary, the last item with a key is the one that counts).
\<close>

record exported =
  x_timestamp :: string
  x_model :: "string option"
  x_user_message :: string
  x_ai_response :: string
  x_tokens :: int

definition original_fields :: "entry \<Rightarrow> exported" where
  "original_fields msg =
     \<lparr>x_timestamp = timestamp msg, x_model = entry_model msg,
      x_user_message = user_message msg, x_ai_response = ai_response msg,
      x_tokens = tokens msg\<rparr>"

fun as_text :: "json option \<Rightarrow> string option" where
  "as_text (Some (JStr s)) = Some s"
| "as_text _ = None"

fun as_optional_text :: "json option \<Rightarrow> string option option" where
  "as_optional_text (Some (JStr s)) = Some (Some s)"
| "as_optional_text (Some JNull) = Some None"
| "as_optional_text _ = None"

fun as_int :: "json option \<Rightarrow> int option" where
  "as_int (Some (JInt i)) = Some i"
| "as_int _ = None"

definition import_fields :: "(string \<rightharpoonup> json) \<Rightarrow> exported option" where
  "import_fields d =
     (case as_text (d ''timestamp'') of None \<Rightarrow> None | Some ts \<Rightarrow>
      case as_optional_text (d ''model'') of None \<Rightarrow> None | Some m \<Rightarrow>
      case as_text (d ''user_message'') of None \<Rightarrow> None | Some um \<Rightarrow>
      case as_text (d ''ai_response'') of None \<Rightarrow> None | Some ar \<Rightarrow>
      case as_int (d ''tokens'') of None \<Rightarrow> None | Some tk \<Rightarrow>
        Some \<lparr>x_timestamp = ts, x_model = m, x_user_message = um, x_ai_response = ar,
              x_tokens = tk\<rparr>)"

fun import_row :: "json \<Rightarrow> exported option" where
  "import_row (JObj kvs) = import_fields (map_of (rev kvs))"
| "import_row _ = None"

fun import_rows :: "json \<Rightarrow> exported list option" where
  "import_rows (JArr vs) = those (map import_row vs)"
| "import_rows _ = None"

definition read_export :: "string \<Rightarrow> exported list option" where
  "read_export doc = (case json_loads doc of None \<Rightarrow> None | Some v \<Rightarrow> import_rows v)"

section \<open>Example values\<close>

text \<open>
  Concrete parameters for the examples: a derivation that prefixes a salt (it is
  one-to-one), \<open>str.isdigit\<close> on ASCII texts, one model, a world whose API call fails with
  an error reply, and a vault that holds the credential \<open>sk-test\<close> under the PIN 4821.
\<close>

definition salted :: "string \<Rightarrow> string" where
  "salted pin = ''salt:'' @ pin"

definition ascii_isdigit :: "string \<Rightarrow> bool" where
  "ascii_isdigit s = (s \<noteq> [] \<and> list_all is_dec_digit s)"

definition example_env :: "string env" where
  "example_env = \<lparr>derive = salted, isdigit = ascii_isdigit, available_models = [(''m1'', ''Model 1'')]\<rparr>"

definition example_io :: io where
  "example_io =
     \<lparr>api_reply = Inr \<lparr>resp_error = Some ''timeout'', resp_content = None, resp_total_tokens = None\<rparr>,
      balance_reply = Inr ''$5.00'',
      draws = (\<lambda>i. 7 * i + 14),
      write_ok = True,
      store_time = ''2024-03-01 14:05:09'',
      elapsed = 2,
      local_now = \<lparr>year = 2024, month = 3, day = 1, hour = 15, minute = 5, second = 9\<rparr>,
      utc_now = \<lparr>year = 2024, month = 3, day = 1, hour = 12, minute = 5, second = 9\<rparr>\<rparr>"

definition empty_cache :: "'v chat_cache" where
  "empty_cache = \<lparr>credential = None, entries = [], next_id = 0\<rparr>"

definition stored_cache :: "string chat_cache" where
  "stored_cache =
     \<lparr>credential = Some \<lparr>api_key = ''sk-test'', pin_verifier = salted ''4821''\<rparr>,
      entries = [], next_id = 0\<rparr>"

definition locked_app :: "string app" where
  "locked_app = ChatApp_main (ChatApp_init stored_cache None Map.empty)"

definition fresh_app :: "string app" where
  "fresh_app = ChatApp_main (ChatApp_init empty_cache None Map.empty)"

definition key_entered_app :: "string app" where
  "key_entered_app =
     fresh_app\<lparr>auth_screen := Some (AuthScreen_init\<lparr>api_key_field_value := Some ''sk-test''\<rparr>)\<rparr>"

definition chat_app :: "string app" where
  "chat_app = submit_pin example_env example_io ''4821'' locked_app"

definition sent_app :: "string app" where
  "sent_app = ChatApp_send_message example_io (Some ''hi'') chat_app"

section \<open>Properties of clean_message\<close>

lemma match_tag_Cons:
  "match_tag (c # cs) =
     (if c = CHR ''<'' \<and> takeWhile (\<lambda>x. x \<noteq> CHR ''>'') cs \<noteq> [] then
        (case dropWhile (\<lambda>x. x \<noteq> CHR ''>'') cs of [] \<Rightarrow> None | _ # r \<Rightarrow> Some r)
      else None)"
  by (simp add: match_tag_def)

lemma match_tag_Nil: "match_tag [] = None"
  by (simp add: match_tag_def)

lemma match_tag_SomeD:
  assumes m: "match_tag s = Some rest"
  shows "\<exists>body. body \<noteq> [] \<and> CHR ''>'' \<notin> set body \<and> s = CHR ''<'' # body @ CHR ''>'' # rest"
proof -
  let ?P = "\<lambda>x. x \<noteq> CHR ''>''"
  from m obtain c cs where s: "s = c # cs"
    by (cases s) (simp_all add: match_tag_Nil)
  from m have m': "(if c = CHR ''<'' \<and> takeWhile ?P cs \<noteq> [] then
        (case dropWhile ?P cs of [] \<Rightarrow> None | _ # r \<Rightarrow> Some r) else None) = Some rest"
    unfolding s match_tag_Cons .
  have c: "c = CHR ''<''"
    using m' by (cases "c = CHR ''<''") simp_all
  have b: "takeWhile ?P cs \<noteq> []"
    using m' by (cases "takeWhile ?P cs = []") simp_all
  from m' c b have "(case dropWhile ?P cs of [] \<Rightarrow> None | _ # r \<Rightarrow> Some r) = Some rest"
    by simp
  then obtain g where d: "dropWhile ?P cs = g # rest"
    by (cases "dropWhile ?P cs") simp_all
  have "dropWhile ?P cs \<noteq> []"
    unfolding d by simp
  then have "\<not> ?P (hd (dropWhile ?P cs))"
    by (rule hd_dropWhile)
  then have g: "g = CHR ''>''"
    unfolding d by simp
  have "takeWhile ?P cs @ dropWhile ?P cs = cs"
    by (rule takeWhile_dropWhile_id)
  then have e: "cs = takeWhile ?P cs @ CHR ''>'' # rest"
    unfolding d g by simp
  have n: "CHR ''>'' \<notin> set (takeWhile ?P cs)"
    using set_takeWhileD [of "CHR ''>''" ?P cs] by blast
  have "s = CHR ''<'' # takeWhile ?P cs @ CHR ''>'' # rest"
    unfolding s c using e by simp
  with b n show ?thesis by blast
qed

lemma match_tag_SomeI:
  assumes b: "body \<noteq> []" "CHR ''>'' \<notin> set body"
  shows "match_tag (CHR ''<'' # body @ CHR ''>'' # rest) = Some rest"
proof -
  let ?P = "\<lambda>x. x \<noteq> CHR ''>''"
  have all: "\<And>x. x \<in> set body \<Longrightarrow> ?P x"
    using b by auto
  have "takeWhile ?P (body @ CHR ''>'' # rest) = body @ takeWhile ?P (CHR ''>'' # rest)"
    using all by (rule takeWhile_append2)
  then have t: "takeWhile ?P (body @ CHR ''>'' # rest) = body"
    by simp
  have "dropWhile ?P (body @ CHR ''>'' # rest) = dropWhile ?P (CHR ''>'' # rest)"
    using all by (rule dropWhile_append2)
  then have d: "dropWhile ?P (body @ CHR ''>'' # rest) = CHR ''>'' # rest"
    by simp
  show ?thesis
    unfolding match_tag_Cons t d using b by simp
qed


lemma match_tag_None_iff:
  "match_tag (c # cs) = None \<longleftrightarrow>
     c \<noteq> CHR ''<'' \<or> CHR ''>'' \<notin> set cs \<or> (\<exists>cs'. cs = CHR ''>'' # cs')"
proof (cases cs)
  case Nil
  then show ?thesis by (simp add: match_tag_def)
next
  case (Cons d ds)
  show ?thesis
  proof (cases "d = CHR ''>''")
    case True
    with Cons show ?thesis by (simp add: match_tag_def)
  next
    case False
    have m: "match_tag (c # cs) =
        (if c = CHR ''<'' then
           (case dropWhile (\<lambda>x. x \<noteq> CHR ''>'') ds of [] \<Rightarrow> None | _ # rest \<Rightarrow> Some rest)
         else None)"
      using False Cons by (simp add: match_tag_def)
    have e: "(dropWhile (\<lambda>x. x \<noteq> CHR ''>'') ds = []) = (CHR ''>'' \<notin> set ds)"
      by auto
    have s: "(CHR ''>'' \<notin> set cs) = (CHR ''>'' \<notin> set ds)"
      using False Cons by auto
    have n: "\<not> (\<exists>cs'. cs = CHR ''>'' # cs')"
      using False Cons by simp
    show ?thesis
    proof (cases "dropWhile (\<lambda>x. x \<noteq> CHR ''>'') ds")
      case Nil
      have "match_tag (c # cs) = None" unfolding m Nil by simp
      moreover from Nil e s have "CHR ''>'' \<notin> set cs" by simp
      ultimately show ?thesis by simp
    next
      case (Cons g rest)
      have "match_tag (c # cs) = None \<longleftrightarrow> c \<noteq> CHR ''<''" unfolding m Cons by simp
      moreover from Cons e s have "CHR ''>'' \<in> set cs" by simp
      ultimately show ?thesis using n by simp
    qed
  qed
qed


lemma is_tag_iff:
  "is_tag t \<longleftrightarrow> (\<exists>body. body \<noteq> [] \<and> CHR ''>'' \<notin> set body \<and> t = CHR ''<'' # body @ ''>'')"
proof
  assume "is_tag t"
  then obtain cs where t: "t = CHR ''<'' # cs" and cs: "cs \<noteq> []" "last cs = CHR ''>''"
      "butlast cs \<noteq> []" "CHR ''>'' \<notin> set (butlast cs)"
    by (auto simp: is_tag_def split: list.splits)
  from cs have "cs = butlast cs @ ''>''"
    by (metis append_butlast_last_id)
  with t cs show "\<exists>body. body \<noteq> [] \<and> CHR ''>'' \<notin> set body \<and> t = CHR ''<'' # body @ ''>''"
    by blast
next
  assume "\<exists>body. body \<noteq> [] \<and> CHR ''>'' \<notin> set body \<and> t = CHR ''<'' # body @ ''>''"
  then show "is_tag t"
    by (auto simp: is_tag_def)
qed


lemma re_sub_tag_set: "set (re_sub_tag s) \<subseteq> set s"
proof (induction s rule: re_sub_tag.induct)
  case 1
  then show ?case by simp
next
  case (2 c cs)
  show ?case
  proof (cases "match_tag (c # cs)")
    case None
    with 2 show ?thesis by auto
  next
    case (Some rest)
    from match_tag_SomeD [OF Some] obtain body
      where "c # cs = CHR ''<'' # body @ CHR ''>'' # rest" by blast
    then have "set rest \<subseteq> set (c # cs)" by auto
    moreover have "set (re_sub_tag rest) \<subseteq> set rest"
      using 2 Some by simp
    ultimately show ?thesis using Some by auto
  qed
qed

lemma re_sub_tag_no_tag: "\<not> re_search_tag (re_sub_tag s)"
proof (induction s rule: re_sub_tag.induct)
  case 1
  then show ?case by simp
next
  case (2 c cs)
  show ?case
  proof (cases "match_tag (c # cs)")
    case (Some rest)
    with 2 show ?thesis by simp
  next
    case None
    have "match_tag (c # re_sub_tag cs) = None"
    proof -
      from None consider "c \<noteq> CHR ''<''" | "CHR ''>'' \<notin> set cs" | cs' where "cs = CHR ''>'' # cs'"
        unfolding match_tag_None_iff by blast
      then show ?thesis
      proof cases
        case 1
        then show ?thesis by (simp add: match_tag_None_iff)
      next
        case 2
        with re_sub_tag_set [of cs] have "CHR ''>'' \<notin> set (re_sub_tag cs)" by blast
        then show ?thesis by (simp add: match_tag_None_iff)
      next
        case 3
        have "match_tag (CHR ''>'' # cs') = None" by (simp add: match_tag_Cons)
        then have "re_sub_tag cs = CHR ''>'' # re_sub_tag cs'" using 3 by simp
        then show ?thesis by (simp add: match_tag_None_iff)
      qed
    qed
    with None 2 show ?thesis by simp
  qed
qed

lemma re_sub_tag_fixed: "\<not> re_search_tag s \<Longrightarrow> re_sub_tag s = s"
  by (induction s) (simp_all split: option.splits)

lemma re_search_tag_iff: "re_search_tag s \<longleftrightarrow> (\<exists>t. is_tag t \<and> sublist t s)"
proof
  assume "re_search_tag s"
  then show "\<exists>t. is_tag t \<and> sublist t s"
  proof (induction s)
    case Nil
    then show ?case by simp
  next
    case (Cons c cs)
    show ?case
    proof (cases "match_tag (c # cs)")
      case None
      with Cons obtain t where "is_tag t" "sublist t cs" by auto
      then show ?thesis by (auto simp: sublist_Cons_right)
    next
      case (Some rest)
      from match_tag_SomeD [OF Some] obtain body where b: "body \<noteq> []" "CHR ''>'' \<notin> set body"
          and s: "c # cs = CHR ''<'' # body @ CHR ''>'' # rest"
        by blast
      have "is_tag (CHR ''<'' # body @ ''>'')"
        unfolding is_tag_iff using b by blast
      moreover have "c # cs = [] @ (CHR ''<'' # body @ ''>'') @ rest"
        using s by simp
      then have "sublist (CHR ''<'' # body @ ''>'') (c # cs)"
        unfolding sublist_def by blast
      ultimately show ?thesis by blast
    qed
  qed
next
  assume "\<exists>t. is_tag t \<and> sublist t s"
  then obtain t pre post where t: "is_tag t" and s: "s = pre @ t @ post"
    unfolding sublist_def by blast
  from t obtain body where b: "body \<noteq> []" "CHR ''>'' \<notin> set body"
      and tt: "t = CHR ''<'' # body @ ''>''"
    unfolding is_tag_iff by blast
  have "match_tag (CHR ''<'' # body @ CHR ''>'' # post) = Some post"
    using b by (rule match_tag_SomeI)
  then have "re_search_tag (t @ post)"
    unfolding tt by simp
  then have "re_search_tag (pre @ t @ post)"
    by (induction pre) (simp_all split: option.splits)
  with s show "re_search_tag s" by simp
qed

lemma re_sub_tag_pieces:
  "\<exists>pieces rest. list_all (\<lambda>p. is_tag (snd p)) pieces
      \<and> s = with_tags pieces rest \<and> re_sub_tag s = without_tags pieces rest"
proof (induction s rule: re_sub_tag.induct)
  case 1
  have "list_all (\<lambda>p. is_tag (snd p)) [] \<and> [] = with_tags [] [] \<and> re_sub_tag [] = without_tags [] []"
    by (simp add: with_tags_def without_tags_def)
  then show ?case by blast
next
  case (2 c cs)
  show ?case
  proof (cases "match_tag (c # cs)")
    case None
    with 2 obtain pieces rest where p: "list_all (\<lambda>p. is_tag (snd p)) pieces"
        "cs = with_tags pieces rest" "re_sub_tag cs = without_tags pieces rest"
      by blast
    have r: "re_sub_tag (c # cs) = c # re_sub_tag cs"
      using None by simp
    show ?thesis
    proof (cases pieces)
      case Nil
      with p r have "list_all (\<lambda>p. is_tag (snd p)) [] \<and> c # cs = with_tags [] (c # rest)
          \<and> re_sub_tag (c # cs) = without_tags [] (c # rest)"
        by (simp add: with_tags_def without_tags_def)
      then show ?thesis by blast
    next
      case (Cons q qs)
      obtain k t where q: "q = (k, t)" by (cases q)
      from p r Cons q have "list_all (\<lambda>p. is_tag (snd p)) ((c # k, t) # qs)
          \<and> c # cs = with_tags ((c # k, t) # qs) rest
          \<and> re_sub_tag (c # cs) = without_tags ((c # k, t) # qs) rest"
        by (simp add: with_tags_def without_tags_def)
      then show ?thesis by blast
    qed
  next
    case (Some r)
    from match_tag_SomeD [OF Some] obtain body where b: "body \<noteq> []" "CHR ''>'' \<notin> set body"
        and s: "c # cs = CHR ''<'' # body @ CHR ''>'' # r"
      by blast
    have t: "is_tag (CHR ''<'' # body @ ''>'')"
      unfolding is_tag_iff using b by blast
    from 2 Some obtain pieces rest where p: "list_all (\<lambda>p. is_tag (snd p)) pieces"
        "r = with_tags pieces rest" "re_sub_tag r = without_tags pieces rest"
      by blast
    have "re_sub_tag (c # cs) = re_sub_tag r"
      using Some by simp
    with p t s have "list_all (\<lambda>p. is_tag (snd p)) (([], CHR ''<'' # body @ ''>'') # pieces)
        \<and> c # cs = with_tags (([], CHR ''<'' # body @ ''>'') # pieces) rest
        \<and> re_sub_tag (c # cs) = without_tags (([], CHR ''<'' # body @ ''>'') # pieces) rest"
      by (simp add: with_tags_def without_tags_def)
    then show ?thesis by blast
  qed
qed

text \<open>
  C10. For every text \<open>m\<close>, \<open>clean_message m\<close> is \<open>m\<close> with tags taken out (\<open>m\<close> is
  kept parts with tags between them, and the result is the kept parts alone); no tag is
  left in the result, so every one was taken out; and cleaning twice is cleaning once.
\<close>

theorem clean_message_removes_tags:
  "(\<exists>pieces rest. list_all (\<lambda>p. is_tag (snd p)) pieces
       \<and> m = with_tags pieces rest \<and> clean_message m = without_tags pieces rest)
   \<and> (\<forall>t. is_tag t \<longrightarrow> \<not> sublist t (clean_message m))
   \<and> clean_message (clean_message m) = clean_message m"
proof -
  have n: "\<not> re_search_tag (re_sub_tag m)"
    by (rule re_sub_tag_no_tag)
  then have "\<forall>t. is_tag t \<longrightarrow> \<not> sublist t (re_sub_tag m)"
    unfolding re_search_tag_iff by blast
  moreover have "re_sub_tag (re_sub_tag m) = re_sub_tag m"
    using n by (rule re_sub_tag_fixed)
  ultimately show ?thesis
    unfolding clean_message_def using re_sub_tag_pieces [of m] by blast
qed

theorem clean_message_removes_tags_witness:
  "is_tag ''<b>'' \<and> \<not> sublist ''<b>'' (clean_message ''x<<a>b>y'')
   \<and> clean_message ''x<<a>b>y'' = ''xb>y''"
proof -
  have t: "is_tag ''<b>''"
    by (simp add: is_tag_def)
  have "\<not> sublist ''<b>'' (clean_message ''x<<a>b>y'')"
    using clean_message_removes_tags [of "''x<<a>b>y''"] t by blast
  moreover have "clean_message ''x<<a>b>y'' = ''xb>y''"
    by (simp add: clean_message_def match_tag_Cons)
  ultimately show ?thesis using t by blast
qed

section \<open>The credential vault and the session gate\<close>

lemma open_pin_dialog_append:
  "open_pin_dialog (ds @ [(PinDialog pin, True)]) =
     (case open_pin_dialog ds of Some q \<Rightarrow> Some q | None \<Rightarrow> Some pin)"
  by (induction ds rule: open_pin_dialog.induct) simp_all

lemma update_balance_frame:
  "is_authenticated (ChatApp_update_balance w a) = is_authenticated a"
  "cache (ChatApp_update_balance w a) = cache a"
  "page_controls (ChatApp_update_balance w a) = page_controls a"
  "overlay (ChatApp_update_balance w a) = overlay a"
  "tracked (ChatApp_update_balance w a) = tracked a"
  "files (ChatApp_update_balance w a) = files a"
  "chat_history (ChatApp_update_balance w a) = chat_history a"
  by (simp_all add: ChatApp_update_balance_def split: sum.splits)

lemma on_auth_success_authenticated:
  "is_authenticated (on_auth_success e w a)"
  by (simp add: on_auth_success_def ChatApp_initialize_main_interface_def Let_def
      update_balance_frame ChatApp_load_chat_history_def)

text \<open>
  C8. On launch the page shows the PIN screen, and the Session Gate is \<open>Locked\<close>, exactly
  when the cache has authentication data; otherwise it shows the API-key screen and the
  gate is \<open>NoCredential\<close>.
\<close>

theorem launch_screen:
  "session_state (ChatApp_main (ChatApp_init stored key disk)) =
     (if has_auth_data stored then Locked else NoCredential)
   \<and> page_controls (ChatApp_main (ChatApp_init stored key disk)) =
     (if has_auth_data stored then [PinScreenControl] else [AuthScreenControl])"
  by (simp add: ChatApp_main_def ChatApp_init_def session_state_def Let_def)

lemma verify_pin_after_store:
  assumes "store_credential der ok key pin c = Inr c'"
  shows "verify_pin der p c' \<longleftrightarrow> der p = der pin" and "get_api_key c' = Some key"
proof -
  from assms have c': "c' = c\<lparr>credential := Some \<lparr>api_key = key, pin_verifier = der pin\<rparr>\<rparr>"
    by (simp add: store_credential_def split: if_splits)
  show "verify_pin der p c' \<longleftrightarrow> der p = der pin"
    by (simp add: c' verify_pin_def)
  show "get_api_key c' = Some key"
    by (simp add: c' get_api_key_def)
qed

lemma verify_pin_one_to_one:
  assumes "store_credential der ok key pin c = Inr c'"
    and "inj_on der S" and "p \<in> S" and "pin \<in> S"
  shows "verify_pin der p c' \<longleftrightarrow> p = pin"
  using verify_pin_after_store(1) [OF assms(1), of p] assms(2,3,4)
  by (simp add: inj_on_eq_iff)





lemma failure_keeps_locked:
  assumes "session_state a = Locked" and "\<not> verify_pin (derive e) p (cache a)"
  shows "session_state (submit_pin e w p a) = Locked"
    and "cache (submit_pin e w p a) = cache a"
    and "(pin_screen (submit_pin e w p a) = None) = (pin_screen a = None)"
  using assms
  by (auto simp: submit_pin_def PinScreen_validate_pin_def session_state_def check_pin_def
           split: option.splits if_splits)

lemma failures_keep_locked:
  assumes "session_state a = Locked" and "\<forall>p \<in> set ps. \<not> verify_pin (derive e) p (cache a)"
  shows "session_state (fold (submit_pin e w) ps a) = Locked
     \<and> cache (fold (submit_pin e w) ps a) = cache a
     \<and> (pin_screen (fold (submit_pin e w) ps a) = None) = (pin_screen a = None)"
  using assms
proof (induction ps arbitrary: a)
  case Nil
  then show ?case by simp
next
  case (Cons p ps)
  from Cons.prems have f: "\<not> verify_pin (derive e) p (cache a)" by simp
  note step = failure_keeps_locked [OF Cons.prems(1) f, of w]
  have "\<forall>q \<in> set ps. \<not> verify_pin (derive e) q (cache (submit_pin e w p a))"
    using Cons.prems(2) step(2) by simp
  from Cons.IH [OF step(1) this] step show ?case by simp
qed

lemma good_pin_unlocks:
  assumes "pin_screen a \<noteq> None" and "py_len good = 4" and "isdigit e good"
    and "verify_pin (derive e) good (cache a)"
  shows "session_state (submit_pin e w good a) = Authenticated"
proof -
  from assms(2) have "good \<noteq> []"
    by (auto simp: py_len_def)
  with assms have "submit_pin e w good a =
      on_auth_success e w (a\<lparr>pin_screen := map_option (\<lambda>s. s\<lparr>pin_field_value := Some good\<rparr>) (pin_screen a)\<rparr>)"
    by (auto simp: submit_pin_def PinScreen_validate_pin_def check_pin_def split: option.splits)
  then show ?thesis
    by (simp add: session_state_def on_auth_success_authenticated)
qed

lemma failure_twice:
  assumes "\<not> verify_pin (derive e) p (cache a)"
  shows "submit_pin e w p (submit_pin e w p a) = submit_pin e w p a"
proof (cases "pin_screen a")
  case None
  then show ?thesis
    by (simp add: submit_pin_def PinScreen_validate_pin_def)
next
  case (Some s)
  with assms show ?thesis
    by (simp add: submit_pin_def PinScreen_validate_pin_def check_pin_def PinScreen_show_error_def)
qed

text \<open>
  Through the PIN screen: the checks that \<open>validate_pin\<close> makes before it asks the cache
  let through only texts of four characters that are digits. When the stored PIN is such
  a text, as a generated PIN is, and the derivation is one-to-one on such texts, a
  submitted PIN authenticates exactly when it is the stored one.
\<close>

lemma pin_screen_accepts_iff:
  assumes "session_state a = Locked" and "pin_screen a \<noteq> None"
    and "inj_on (derive e) {s. py_len s = 4 \<and> isdigit e s}"
    and "store_credential (derive e) ok key pin c = Inr (cache a)"
    and "py_len pin = 4" and "isdigit e pin"
  shows "session_state (submit_pin e w p a) = Authenticated \<longleftrightarrow> p = pin"
proof (cases "py_len p = 4 \<and> isdigit e p")
  case True
  have v: "verify_pin (derive e) p (cache a) \<longleftrightarrow> p = pin"
    using assms(4,3) by (rule verify_pin_one_to_one) (use True assms(5,6) in simp_all)
  show ?thesis
  proof (cases "p = pin")
    case True
    with v assms(2,5,6) show ?thesis
      by (simp add: good_pin_unlocks)
  next
    case False
    with v have "\<not> verify_pin (derive e) p (cache a)" by simp
    with assms(1) have "session_state (submit_pin e w p a) = Locked"
      by (rule failure_keeps_locked)
    with False show ?thesis by simp
  qed
next
  case False
  with assms(5,6) have n: "p \<noteq> pin" by blast
  obtain s where s: "pin_screen a = Some s"
    using assms(2) by blast
  from assms(1) have l: "\<not> is_authenticated a" "page_controls a = [PinScreenControl]"
    by (auto simp: session_state_def split: if_splits option.splits)
  have "session_state (submit_pin e w p a) = Locked"
    using False l s
    by (auto simp: submit_pin_def PinScreen_validate_pin_def session_state_def)
  with n show ?thesis by simp
qed

lemma failure_only_pin_screen:
  assumes "\<not> verify_pin (derive e) p (cache a)"
  shows "\<exists>m. submit_pin e w p a =
     a\<lparr>pin_screen :=
         map_option (\<lambda>s. PinScreen_show_error m (s\<lparr>pin_field_value := Some p\<rparr>)) (pin_screen a)\<rparr>"
proof (cases "pin_screen a")
  case None
  then have "submit_pin e w p a = a\<lparr>pin_screen := None\<rparr>"
    by (simp add: submit_pin_def PinScreen_validate_pin_def)
  with None show ?thesis by simp
next
  case (Some s)
  let ?s = "s\<lparr>pin_field_value := Some p\<rparr>"
  have r: "submit_pin e w p a =
      (if p = [] then a\<lparr>pin_screen := Some (PinScreen_show_error EnterPin ?s)\<rparr>
       else if py_len p \<noteq> 4 then a\<lparr>pin_screen := Some (PinScreen_show_error PinNeedsFourDigits ?s)\<rparr>
       else if \<not> isdigit e p then a\<lparr>pin_screen := Some (PinScreen_show_error PinDigitsOnly ?s)\<rparr>
       else a\<lparr>pin_screen := Some (PinScreen_show_error WrongPin ?s)\<rparr>)"
    using Some assms by (simp add: submit_pin_def PinScreen_validate_pin_def check_pin_def)
  show ?thesis
    unfolding r Some by (simp; blast)
qed

lemma failures_only_pin_screen:
  assumes "\<forall>p \<in> set ps. \<not> verify_pin (derive e) p (cache a)"
  shows "fold (submit_pin e w) ps a = a\<lparr>pin_screen := pin_screen (fold (submit_pin e w) ps a)\<rparr>"
  using assms
proof (induction ps arbitrary: a)
  case Nil
  then show ?case by simp
next
  case (Cons p ps)
  from Cons.prems have f: "\<not> verify_pin (derive e) p (cache a)" by simp
  from failure_only_pin_screen [OF f, of w] obtain x where
    x: "submit_pin e w p a = a\<lparr>pin_screen := x\<rparr>"
    by blast
  then have "cache (submit_pin e w p a) = cache a" by simp
  with Cons.prems have "\<forall>q \<in> set ps. \<not> verify_pin (derive e) q (cache (submit_pin e w p a))"
    by simp
  from Cons.IH [OF this]
  have "fold (submit_pin e w) ps (submit_pin e w p a) =
      (submit_pin e w p a)\<lparr>pin_screen := pin_screen (fold (submit_pin e w) ps (submit_pin e w p a))\<rparr>" .
  then show ?case
    by (simp add: x)
qed

text \<open>
  C2, as amended. In the \<open>Locked\<close> state, however many PINs that \<open>verify_pin\<close> rejects
  are submitted one after the other, the Session Gate stays \<open>Locked\<close> and nothing but the
  PIN screen changes: a rejected PIN puts the submitted text into the field and an error
  into the display (status text, its colour and visibility, the border of the field), and
  leaves the credential, the transcript, the key of the API client, the files, the log,
  the tracked analytics and every other widget as they were. No counter of failures is
  kept (a second failure with the same PIN leaves the state exactly as the first did),
  and no lockout follows: after those failures a PIN of four digits that \<open>verify_pin\<close>
  accepts still authenticates.
\<close>

theorem wrong_pin_stays_locked:
  assumes "session_state a = Locked" and "pin_screen a \<noteq> None"
    and "\<forall>p \<in> set ps. \<not> verify_pin (derive e) p (cache a)"
  shows "session_state (fold (submit_pin e w) ps a) = Locked
     \<and> fold (submit_pin e w) ps a = a\<lparr>pin_screen := pin_screen (fold (submit_pin e w) ps a)\<rparr>
     \<and> (\<forall>p \<in> set ps. \<exists>m. submit_pin e w p a =
           a\<lparr>pin_screen :=
               map_option (\<lambda>s. PinScreen_show_error m (s\<lparr>pin_field_value := Some p\<rparr>))
                 (pin_screen a)\<rparr>)
     \<and> (\<forall>p \<in> set ps. submit_pin e w p (submit_pin e w p a) = submit_pin e w p a)
     \<and> (py_len good = 4 \<and> isdigit e good \<and> verify_pin (derive e) good (cache a) \<longrightarrow>
          session_state (submit_pin e w good (fold (submit_pin e w) ps a)) = Authenticated)"
proof -
  note f = failures_keep_locked [OF assms(1) assms(3), of w]
  have "session_state (submit_pin e w good (fold (submit_pin e w) ps a)) = Authenticated"
    if "py_len good = 4" "isdigit e good" "verify_pin (derive e) good (cache a)"
  proof (rule good_pin_unlocks)
    show "pin_screen (fold (submit_pin e w) ps a) \<noteq> None"
      using f assms(2) by simp
    show "verify_pin (derive e) good (cache (fold (submit_pin e w) ps a))"
      using f that(3) by simp
  qed (use that in simp_all)
  moreover have "\<forall>p \<in> set ps. submit_pin e w p (submit_pin e w p a) = submit_pin e w p a"
    using assms(3) failure_twice by blast
  moreover have "\<forall>p \<in> set ps. \<exists>m. submit_pin e w p a =
           a\<lparr>pin_screen :=
               map_option (\<lambda>s. PinScreen_show_error m (s\<lparr>pin_field_value := Some p\<rparr>))
                 (pin_screen a)\<rparr>"
    using assms(3) failure_only_pin_screen by blast
  moreover note failures_only_pin_screen [OF assms(3), of w]
  ultimately show ?thesis
    using f by blast
qed

theorem wrong_pin_stays_locked_witness:
  "session_state locked_app = Locked
   \<and> session_state (fold (submit_pin example_env example_io) [''0000'', ''12''] locked_app) = Locked
   \<and> cache (fold (submit_pin example_env example_io) [''0000'', ''12''] locked_app) = stored_cache
   \<and> files (fold (submit_pin example_env example_io) [''0000'', ''12''] locked_app) = Map.empty
   \<and> session_state (submit_pin example_env example_io ''4821''
        (fold (submit_pin example_env example_io) [''0000'', ''12''] locked_app)) = Authenticated"
proof -
  have c: "cache locked_app = stored_cache" and s: "pin_screen locked_app \<noteq> None"
    and d: "files locked_app = Map.empty"
    by (simp_all add: locked_app_def ChatApp_main_def ChatApp_init_def Let_def
        has_auth_data_def has_credential_def stored_cache_def)
  have l: "session_state locked_app = Locked"
    by (simp add: locked_app_def ChatApp_main_def ChatApp_init_def Let_def session_state_def
        has_auth_data_def has_credential_def stored_cache_def)
  have w: "\<forall>p \<in> set [''0000'', ''12'']. \<not> verify_pin (derive example_env) p (cache locked_app)"
    by (simp add: c verify_pin_def stored_cache_def example_env_def salted_def)
  have g: "py_len ''4821'' = 4 \<and> isdigit example_env ''4821''
      \<and> verify_pin (derive example_env) ''4821'' (cache locked_app)"
    by (simp add: c verify_pin_def stored_cache_def example_env_def salted_def py_len_def
        is_continuation_def ascii_isdigit_def is_dec_digit_def)
  note t = wrong_pin_stays_locked [OF l s w, of example_io "''4821''"]
  from t have f: "fold (submit_pin example_env example_io) [''0000'', ''12''] locked_app =
      locked_app\<lparr>pin_screen :=
        pin_screen (fold (submit_pin example_env example_io) [''0000'', ''12''] locked_app)\<rparr>"
    by blast
  from arg_cong [OF f, of cache] c
  have "cache (fold (submit_pin example_env example_io) [''0000'', ''12''] locked_app) = stored_cache"
    by simp
  moreover from arg_cong [OF f, of files] d
  have "files (fold (submit_pin example_env example_io) [''0000'', ''12''] locked_app) = Map.empty"
    by simp
  ultimately show ?thesis
    using t g l by blast
qed

text \<open>
  C2 as stated fails: after a wrong PIN, a second wrong PIN changes nothing at all in the
  state of the application, so nothing in memory has counted the two failures.
\<close>

theorem failure_counter_counterexample:
  "session_state locked_app = Locked
   \<and> \<not> verify_pin (derive example_env) ''0000'' (cache locked_app)
   \<and> submit_pin example_env example_io ''0000'' (submit_pin example_env example_io ''0000'' locked_app)
       = submit_pin example_env example_io ''0000'' locked_app"
proof -
  have c: "cache locked_app = stored_cache"
    by (simp add: locked_app_def ChatApp_main_def ChatApp_init_def Let_def
        has_auth_data_def has_credential_def stored_cache_def)
  have l: "session_state locked_app = Locked"
    by (simp add: locked_app_def ChatApp_main_def ChatApp_init_def Let_def session_state_def
        has_auth_data_def has_credential_def stored_cache_def)
  have w: "\<not> verify_pin (derive example_env) ''0000'' (cache locked_app)"
    by (simp add: c verify_pin_def stored_cache_def example_env_def salted_def)
  from l w failure_twice [OF w] show ?thesis by blast
qed

section \<open>PIN generation\<close>

lemma digit_char_is_digit:
  assumes "d < 10"
  shows "digit_char d \<in> set ''0123456789''"
proof -
  have "''0123456789'' ! d \<in> set ''0123456789''"
    by (rule nth_mem) (use assms in simp)
  then show ?thesis
    unfolding digit_char_def .
qed

lemma py_str_int_digit:
  assumes "0 \<le> i" and "i < 10"
  shows "py_str_int i = [digit_char (nat i)]"
  using assms by (simp add: py_str_int_def decimal.simps)

lemma randint_0_9: "0 \<le> randint 0 9 raw \<and> randint 0 9 raw < 10"
  by (simp add: randint_def)

lemma nat_randint_0_9: "nat (randint 0 9 raw) < 10"
  by (simp add: randint_def)

lemma generate_pin_digits:
  "generate_pin rnd = map (\<lambda>i. digit_char (nat (randint 0 9 (rnd i)))) [0..<4]"
proof -
  have "py_str_int (randint 0 9 (rnd i)) = [digit_char (nat (randint 0 9 (rnd i)))]" for i
    using randint_0_9 [of "rnd i"] by (simp add: py_str_int_digit)
  then show ?thesis
    unfolding generate_pin_def by (induction "[0..<4::nat]") (simp_all add: concat_map_singleton)
qed

lemma generate_pin_four_digits:
  "length (generate_pin rnd) = 4 \<and> (\<forall>c \<in> set (generate_pin rnd). c \<in> set ''0123456789'')"
proof -
  have "digit_char (nat (randint 0 9 raw)) \<in> set ''0123456789''" for raw
    by (rule digit_char_is_digit) (rule nat_randint_0_9)
  then show ?thesis
    unfolding generate_pin_digits by auto
qed

text \<open>
  C3. When \<open>validate_api_key\<close> issues a PIN (the external validation has succeeded and
  the dialog showing the PIN is open), the PIN is the one generated from the four random
  draws: it has length 4 and each of its characters is a decimal digit.
\<close>

theorem issued_pin_four_digits:
  assumes "session_state a = NoCredential"
    and "session_state (AuthScreen_validate_api_key e w a) = PinIssued pin"
  shows "length pin = 4 \<and> (\<forall>c \<in> set pin. c \<in> set ''0123456789'')"
proof -
  from assms(1) have n: "open_pin_dialog (overlay a) = None" and u: "\<not> is_authenticated a"
    by (auto simp: session_state_def split: if_splits option.splits)
  from assms(2) have "open_pin_dialog (overlay (AuthScreen_validate_api_key e w a)) = Some pin"
    by (auto simp: session_state_def split: if_splits option.splits)
  then have "pin = generate_pin (draws w)"
    using n
    by (auto simp: AuthScreen_validate_api_key_def AuthScreen_show_pin_dialog_def Let_def
          open_pin_dialog_append save_auth_data_def store_credential_def
        split: option.splits if_splits sum.splits prod.splits)
  then show ?thesis
    using generate_pin_four_digits by simp
qed

theorem issued_pin_four_digits_witness:
  "session_state key_entered_app = NoCredential
   \<and> session_state (AuthScreen_validate_api_key example_env example_io key_entered_app)
       = PinIssued ''4185''
   \<and> length ''4185'' = 4 \<and> set ''4185'' \<subseteq> set ''0123456789''"
proof -
  have a: "session_state key_entered_app = NoCredential"
    by (simp add: key_entered_app_def fresh_app_def ChatApp_main_def ChatApp_init_def Let_def
        session_state_def has_auth_data_def has_credential_def empty_cache_def)
  have g: "generate_pin (\<lambda>i. 7 * i + 14) = ''4185''"
    by (simp add: generate_pin_digits randint_def digit_char_def upt_rec)
  have b: "session_state (AuthScreen_validate_api_key example_env example_io key_entered_app)
      = PinIssued ''4185''"
    by (simp add: g AuthScreen_validate_api_key_def key_entered_app_def fresh_app_def
        ChatApp_main_def ChatApp_init_def Let_def session_state_def has_auth_data_def
        has_credential_def empty_cache_def AuthScreen_init_def example_io_def example_env_def
        oshibka_def save_auth_data_def store_credential_def AuthScreen_show_pin_dialog_def)
  from issued_pin_four_digits [OF a b] a b show ?thesis by blast
qed

section \<open>Sending a message\<close>

lemma update_balance_api_calls: "api_calls (ChatApp_update_balance w a) = api_calls a"
  by (simp add: ChatApp_update_balance_def split: sum.splits)

lemma message_calls_api:
  assumes "m \<noteq> []"
  shows "api_calls (ChatApp_send_message w (Some m) a) = api_calls a @ [(m, model_dropdown_value a)]"
  using assms
  by (simp add: ChatApp_send_message_def Let_def send_failed_def show_error_snack_def
      save_message_def update_balance_api_calls split: sum.splits option.splits)

text \<open>
  C9. An empty message, \<open>None\<close> or the empty text, makes \<open>send_message\<close> return at once:
  the whole state is as before (the calls made to the API client, which a message that is
  not empty extends by one, the transcript, the messages tracked for the analytics, the
  widgets, the log, the files), and the reply of the API is never looked at.
\<close>

theorem empty_message_does_nothing:
  "ChatApp_send_message w None a = a \<and> ChatApp_send_message w (Some []) a = a"
  by (simp add: ChatApp_send_message_def)

text \<open>
  C4, as amended. When the API client returns an error reply to a message that is not
  empty, and the store accepts the write, exactly one entry is appended to the
  transcript: its tokens are 0 and its response is the error text of the reply after the
  prefix \<open>oshibka\<close>, colon, space. The append is performed.
\<close>

theorem error_reply_recorded:
  assumes "m \<noteq> []" and "api_reply w = Inr r" and "resp_error r = Some err" and "write_ok w"
  shows "get_chat_history (cache (ChatApp_send_message w (Some m) a)) =
     get_chat_history (cache a) @
       [\<lparr>entry_id = next_id (cache a), entry_model = model_dropdown_value a, user_message = m,
         ai_response = oshibka @ '': '' @ err, timestamp = store_time w, tokens = 0\<rparr>]"
  using assms
  by (simp add: ChatApp_send_message_def Let_def save_message_def get_chat_history_def
      update_balance_frame)

lemma chat_app_cache: "cache chat_app = stored_cache"
  by (simp add: chat_app_def locked_app_def submit_pin_def PinScreen_validate_pin_def
      ChatApp_main_def ChatApp_init_def Let_def has_auth_data_def has_credential_def
      stored_cache_def PinScreen_init_def py_len_def is_continuation_def example_env_def
      ascii_isdigit_def is_dec_digit_def check_pin_def verify_pin_def salted_def
      on_auth_success_def ChatApp_initialize_main_interface_def update_balance_frame
      ChatApp_load_chat_history_def)

lemma chat_app_model: "model_dropdown_value chat_app = Some ''m1''"
  by (simp add: chat_app_def locked_app_def submit_pin_def PinScreen_validate_pin_def
      ChatApp_main_def ChatApp_init_def Let_def has_auth_data_def has_credential_def
      stored_cache_def PinScreen_init_def py_len_def is_continuation_def example_env_def
      ascii_isdigit_def is_dec_digit_def check_pin_def verify_pin_def salted_def
      on_auth_success_def ChatApp_initialize_main_interface_def ChatApp_update_balance_def
      ChatApp_load_chat_history_def example_io_def)

lemma chat_app_files: "files chat_app = Map.empty"
  by (simp add: chat_app_def locked_app_def submit_pin_def PinScreen_validate_pin_def
      ChatApp_main_def ChatApp_init_def Let_def has_auth_data_def has_credential_def
      stored_cache_def PinScreen_init_def py_len_def is_continuation_def example_env_def
      ascii_isdigit_def is_dec_digit_def check_pin_def verify_pin_def salted_def
      on_auth_success_def ChatApp_initialize_main_interface_def update_balance_frame
      ChatApp_load_chat_history_def)

theorem error_reply_recorded_witness:
  "get_chat_history (cache (ChatApp_send_message example_io (Some ''hi'') chat_app)) =
     [\<lparr>entry_id = 0, entry_model = Some ''m1'', user_message = ''hi'',
       ai_response = oshibka @ '': timeout'', timestamp = ''2024-03-01 14:05:09'', tokens = 0\<rparr>]"
proof -
  have m: "''hi'' \<noteq> []" by simp
  have r: "api_reply example_io =
      Inr \<lparr>resp_error = Some ''timeout'', resp_content = None, resp_total_tokens = None\<rparr>"
    by (simp add: example_io_def)
  have e: "resp_error \<lparr>resp_error = Some ''timeout'', resp_content = None, resp_total_tokens = None\<rparr>
      = Some ''timeout''"
    by simp
  have w: "write_ok example_io"
    by (simp add: example_io_def)
  show ?thesis
    using error_reply_recorded [OF m r e w, of chat_app]
    by (simp add: chat_app_cache chat_app_model get_chat_history_def stored_cache_def example_io_def)
qed

text \<open>
  C4 as stated fails: the reply carries the error text \<open>timeout\<close>, and the response
  recorded in the transcript is not that text; it is the text behind a prefix.
\<close>

theorem raw_error_text_counterexample:
  "resp_error \<lparr>resp_error = Some ''timeout'', resp_content = None, resp_total_tokens = None\<rparr>
     = Some ''timeout''
   \<and> api_reply example_io =
     Inr \<lparr>resp_error = Some ''timeout'', resp_content = None, resp_total_tokens = None\<rparr>
   \<and> ai_response (last (get_chat_history
        (cache (ChatApp_send_message example_io (Some ''hi'') chat_app)))) \<noteq> ''timeout''"
  by (simp add: ChatApp_send_message_def Let_def save_message_def get_chat_history_def
      update_balance_frame example_io_def oshibka_def)

section \<open>Reading back what was written\<close>

subsection \<open>Numbers\<close>

lemma digit_char_cases:
  assumes "d < 10"
  shows "d = 0 \<or> d = 1 \<or> d = 2 \<or> d = 3 \<or> d = 4 \<or> d = 5 \<or> d = 6 \<or> d = 7 \<or> d = 8 \<or> d = (9::nat)"
  using assms by arith

lemma digit_char_props:
  assumes "d < 10"
  shows "is_dec_digit (digit_char d)" and "digit_val (digit_char d) = d"
    and "(digit_char d = CHR ''0'') = (d = 0)"
  using digit_char_cases [OF assms]
  by (auto simp: digit_char_def is_dec_digit_def digit_val_def)

lemma decimal_digits: "list_all is_dec_digit (decimal n)"
proof (induction n rule: decimal.induct)
  case (1 n)
  show ?case
  proof (cases "n < 10")
    case True
    then show ?thesis by (simp add: decimal.simps [of n] digit_char_props)
  next
    case False
    with 1 show ?thesis by (simp add: decimal.simps [of n] digit_char_props)
  qed
qed

lemma decimal_nonempty: "decimal n \<noteq> []"
  by (simp add: decimal.simps [of n])

lemma decimal_hd: "(hd (decimal n) = CHR ''0'') = (n = 0)"
proof (induction n rule: decimal.induct)
  case (1 n)
  show ?case
  proof (cases "n < 10")
    case True
    then show ?thesis by (simp add: decimal.simps [of n] digit_char_props)
  next
    case False
    then have "n div 10 \<noteq> 0" by simp
    with False 1 show ?thesis
      by (simp add: decimal.simps [of n] hd_append decimal_nonempty)
  qed
qed

lemma digits_value_snoc: "digits_value (ds @ [c]) = 10 * digits_value ds + digit_val c"
  by (simp add: digits_value_def)

lemma digits_value_decimal: "digits_value (decimal n) = n"
proof (induction n rule: decimal.induct)
  case (1 n)
  show ?case
  proof (cases "n < 10")
    case True
    then show ?thesis by (simp add: decimal.simps [of n] digits_value_def digit_char_props)
  next
    case False
    with 1 show ?thesis
      by (simp add: decimal.simps [of n] digits_value_snoc digit_char_props)
  qed
qed

lemma takeWhile_digits:
  assumes "number_end rest"
  shows "takeWhile is_dec_digit (decimal n @ rest) = decimal n"
proof -
  have a: "\<And>x. x \<in> set (decimal n) \<Longrightarrow> is_dec_digit x"
    using decimal_digits [of n] by (simp add: list_all_iff)
  have "takeWhile is_dec_digit (decimal n @ rest) = decimal n @ takeWhile is_dec_digit rest"
    using a by (rule takeWhile_append2)
  moreover have "takeWhile is_dec_digit rest = []"
    using assms by (cases rest) (simp_all add: number_end_def)
  ultimately show ?thesis by simp
qed

lemma scan_digits_decimal:
  assumes "number_end rest"
  shows "scan_digits (decimal n @ rest) = decimal n"
proof -
  obtain c cs where d: "decimal n = c # cs"
    using decimal_nonempty [of n] by (cases "decimal n") simp_all
  show ?thesis
  proof (cases "n = 0")
    case True
    then show ?thesis by (simp add: scan_digits_def decimal.simps [of 0] digit_char_def)
  next
    case False
    with decimal_hd [of n] d have "c \<noteq> CHR ''0''" by simp
    then have "scan_digits (decimal n @ rest) = takeWhile is_dec_digit (decimal n @ rest)"
      by (simp add: scan_digits_def d)
    then show ?thesis
      by (simp add: takeWhile_digits [OF assms])
  qed
qed

lemma float_mark_number_end: "number_end rest \<Longrightarrow> \<not> float_mark rest"
  by (cases rest) (simp_all add: number_end_def float_mark_def)

lemma scan_unsigned_decimal:
  assumes "number_end rest"
  shows "scan_unsigned (decimal n @ rest) = Some (n, rest)"
  using float_mark_number_end [OF assms]
  by (simp add: scan_unsigned_def Let_def scan_digits_decimal [OF assms] decimal_nonempty
      digits_value_decimal)

lemma decimal_not_minus: "hd (decimal n) \<noteq> CHR ''-''"
proof -
  have "hd (decimal n) \<in> set (decimal n)"
    using decimal_nonempty by simp
  then have "is_dec_digit (hd (decimal n))"
    using decimal_digits [of n] by (simp add: list_all_iff)
  then show ?thesis by (auto simp: is_dec_digit_def)
qed

lemma scan_number_py_str_int:
  assumes "number_end rest"
  shows "scan_number (py_str_int i @ rest) = Some (i, rest)"
proof (cases "i < 0")
  case True
  then show ?thesis
    by (simp add: py_str_int_def scan_number_def scan_unsigned_decimal [OF assms])
next
  case False
  obtain c cs where d: "decimal (nat i) = c # cs"
    using decimal_nonempty [of "nat i"] by (cases "decimal (nat i)") simp_all
  have m: "c \<noteq> CHR ''-''"
    using decimal_not_minus [of "nat i"] d by simp
  have "scan_number (decimal (nat i) @ rest) =
      (case scan_unsigned (decimal (nat i) @ rest) of None \<Rightarrow> None
       | Some (n, rest) \<Rightarrow> Some (int n, rest))"
    using m by (simp add: scan_number_def d)
  then show ?thesis
    using False by (simp add: py_str_int_def scan_unsigned_decimal [OF assms])
qed

subsection \<open>Texts\<close>

lemma hex_cases:
  assumes "d < 16"
  shows "d = 0 \<or> d = 1 \<or> d = 2 \<or> d = 3 \<or> d = 4 \<or> d = 5 \<or> d = 6 \<or> d = 7 \<or> d = 8 \<or> d = 9
     \<or> d = 10 \<or> d = 11 \<or> d = 12 \<or> d = 13 \<or> d = 14 \<or> d = (15::nat)"
  using assms by arith

lemma hex_val_hex_char:
  assumes "d < 16"
  shows "hex_val (hex_char d) = Some d"
  using hex_cases [OF assms]
  by (auto simp: hex_char_def hex_val_def Let_def)

lemma hex_value_escape:
  assumes "n < 32"
  shows "hex_value [CHR ''0'', CHR ''0'', hex_char (n div 16), hex_char (n mod 16)] 0 = Some n"
proof -
  have a: "n div 16 < 16" using assms by simp
  have b: "n mod 16 < 16" by simp
  have z: "hex_val (CHR ''0'') = Some 0" by (simp add: hex_val_def)
  show ?thesis
    by (simp add: z hex_val_hex_char [OF a] hex_val_hex_char [OF b])
qed

lemma scanstring_escape_char:
  "scanstring (escape_char c @ t) =
     (case scanstring t of None \<Rightarrow> None | Some (s, rest) \<Rightarrow> Some (c # s, rest))"
proof -
  consider (special) "c = quote \<or> c = backslash \<or> c = CHR 0x08 \<or> c = CHR 0x09 \<or> c = CHR 0x0A
        \<or> c = CHR 0x0C \<or> c = CHR 0x0D"
    | (control) "c \<noteq> quote" "c \<noteq> backslash" "c \<noteq> CHR 0x08" "c \<noteq> CHR 0x09" "c \<noteq> CHR 0x0A"
        "c \<noteq> CHR 0x0C" "c \<noteq> CHR 0x0D" "(of_char c :: nat) < 32"
    | (plain) "c \<noteq> quote" "c \<noteq> backslash" "c \<noteq> CHR 0x08" "c \<noteq> CHR 0x09" "c \<noteq> CHR 0x0A"
        "c \<noteq> CHR 0x0C" "c \<noteq> CHR 0x0D" "\<not> (of_char c :: nat) < 32"
    by blast
  then show ?thesis
  proof cases
    case special
    then show ?thesis
      by (auto simp: escape_char_def unescape_def quote_def backslash_def)
  next
    case control
    let ?n = "of_char c :: nat"
    have e: "escape_char c = [backslash, CHR ''u'', CHR ''0'', CHR ''0'',
        hex_char (?n div 16), hex_char (?n mod 16)]"
      using control by (simp add: escape_char_def)
    have h: "hex_value [CHR ''0'', CHR ''0'', hex_char (?n div 16), hex_char (?n mod 16)] 0 = Some ?n"
      using control(8) by (rule hex_value_escape)
    have c: "char_of ?n = c" by simp
    have l: "?n < 128" using control(8) by simp
    have "scanstring (backslash # CHR ''u'' # CHR ''0'' # CHR ''0'' #
        hex_char (?n div 16) # hex_char (?n mod 16) # t) =
      (case scanstring t of None \<Rightarrow> None | Some (s, rest) \<Rightarrow> Some (char_of ?n # s, rest))"
      using h l by (simp add: quote_def backslash_def)
    then show ?thesis
      unfolding e c by simp
  next
    case plain
    then show ?thesis
      by (simp add: escape_char_def)
  qed
qed

lemma scanstring_escaped:
  "scanstring (concat (map escape_char s) @ quote # rest) = Some (s, rest)"
  by (induction s) (simp_all add: scanstring_escape_char)

subsection \<open>The reader moves forward\<close>

text \<open>
  Whatever a parse returns, the text left is shorter than the text given. So the
  comparisons of lengths in \<open>parse_elements\<close> and \<open>parse_members\<close>, which make the
  recursion well-founded, hold whenever they are reached: they refuse no text.
\<close>

lemma skip_ws_Cons_length: "skip_ws s = d # ds \<Longrightarrow> length ds < length s"
  using skip_ws_length [of s] by simp

lemma skip_ws_less: "length r < length (skip_ws s) \<Longrightarrow> length r < length s"
  using skip_ws_length [of s] by simp

lemma scan_unsigned_shorter: "scan_unsigned s = Some (n, rest) \<Longrightarrow> length rest < length s"
  by (cases s) (auto simp: scan_unsigned_def scan_digits_def Let_def split: if_splits)

lemma scan_number_shorter: "scan_number s = Some (i, rest) \<Longrightarrow> length rest < length s"
  by (cases s)
    (auto simp: scan_number_def split: if_splits option.splits dest!: scan_unsigned_shorter)

lemma parse_shorter:
  "\<forall>v r. parse_value s = Some (v, r) \<longrightarrow> length r < length s"
  "\<forall>vs r. parse_elements s1 = Some (vs, r) \<longrightarrow> length r < length s1"
  "\<forall>kvs r. parse_members s2 = Some (kvs, r) \<longrightarrow> length r < length s2"
proof (induction s and s1 and s2 rule: parse_value_parse_elements_parse_members.induct)
  case (1 s)
  show ?case
  proof (intro allI impI)
    fix v r
    assume p: "parse_value s = Some (v, r)"
    then obtain c cs where s: "s = c # cs"
      by (cases s) (simp_all add: parse_value.simps [of "[]"])
    show "length r < length s"
      using p "1.IH" [OF s] skip_ws_length [of cs] unfolding s
      apply (subst (asm) parse_value.simps)
      apply (auto split: if_splits option.splits list.splits
          dest!: scanstring_shorter scan_number_shorter)
      done
  qed
next
  case (2 s)
  show ?case
  proof (intro allI impI)
    fix vs r
    assume p: "parse_elements s = Some (vs, r)"
    then obtain v r1 where v: "parse_value s = Some (v, r1)" and l: "length r1 < length s"
      by (subst (asm) parse_elements.simps) (auto split: option.splits if_splits)
    from p v l obtain d ds where d: "skip_ws r1 = d # ds"
      by (subst (asm) parse_elements.simps) (auto split: list.splits)
    from d have dl: "length ds < length r1"
      by (rule skip_ws_Cons_length)
    show "length r < length s"
    proof (cases "d = CHR '']''")
      case True
      with p v l d have "r = ds"
        by (subst (asm) parse_elements.simps) simp
      with dl l show ?thesis by simp
    next
      case False
      with p v l d have c: "d = CHR '',''"
        by (subst (asm) parse_elements.simps) (simp split: if_splits)
      with p v l d False obtain vs' where "parse_elements (skip_ws ds) = Some (vs', r)"
        by (subst (asm) parse_elements.simps) (auto split: option.splits)
      with "2.IH"(2) [OF v refl l d False c] have "length r < length (skip_ws ds)"
        by blast
      then have "length r < length ds"
        by (rule skip_ws_less)
      with dl l show ?thesis by simp
    qed
  qed
next
  case (3 s)
  show ?case
  proof (intro allI impI)
    fix kvs r
    assume p: "parse_members s = Some (kvs, r)"
    then obtain c cs where s: "s = c # cs"
      by (cases s) (simp_all add: parse_members.simps [of "[]"])
    from p obtain k r0 d ds v r2 x xs where
      h: "c = quote" "scanstring cs = Some (k, r0)" "skip_ws r0 = d # ds" "d = CHR '':''"
        "parse_value (skip_ws ds) = Some (v, r2)" "length r2 < length s" "skip_ws r2 = x # xs"
      unfolding s
      by (subst (asm) parse_members.simps)
        (auto split: option.splits if_splits list.splits)
    from h(7) have xl: "length xs < length r2"
      by (rule skip_ws_Cons_length)
    show "length r < length s"
    proof (cases "x = CHR ''}''")
      case True
      with p h have "r = xs"
        unfolding s by (subst (asm) parse_members.simps) simp
      with xl h(6) show ?thesis by simp
    next
      case False
      with p h have c: "x = CHR '',''"
        unfolding s by (subst (asm) parse_members.simps) (simp split: if_splits)
      with p h False obtain kvs' where "parse_members (skip_ws xs) = Some (kvs', r)"
        unfolding s by (subst (asm) parse_members.simps) (auto split: option.splits)
      with "3.IH"(2) [OF s h(1) h(2) refl h(3) h(4) h(5) refl h(6) h(7) False c]
      have "length r < length (skip_ws xs)"
        unfolding s by blast
      then have "length r < length xs"
        by (rule skip_ws_less)
      with xl h(6) show ?thesis by simp
    qed
  qed
qed


subsection \<open>White space and the first character of a value\<close>

lemma skip_ws_append:
  assumes "list_all is_ws w"
  shows "skip_ws (w @ t) = skip_ws t"
proof -
  have "\<And>x. x \<in> set w \<Longrightarrow> is_ws x"
    using assms by (simp add: list_all_iff)
  then show ?thesis
    unfolding skip_ws_def by (rule dropWhile_append2)
qed

lemma skip_ws_Cons: "\<not> is_ws c \<Longrightarrow> skip_ws (c # t) = c # t"
  by (simp add: skip_ws_def)

lemma newline_indent_ws: "list_all is_ws (newline_indent level)"
  by (simp add: newline_indent_def newline_def is_ws_def list_all_iff)

lemma newline_indent_Cons: "newline_indent level = newline # replicate (4 * level) (CHR '' '')"
  by (simp add: newline_indent_def)

lemma starts_valueD:
  assumes "starts_value d"
  shows "d \<noteq> []" and "skip_ws (d @ t) = d @ t"
  using assms by (cases d; simp add: starts_value_def skip_ws_def)+

lemma decimal_starts_value: "starts_value (decimal n @ t)"
proof -
  obtain c cs where d: "decimal n = c # cs"
    using decimal_nonempty [of n] by (cases "decimal n") simp_all
  have "c \<in> set (decimal n)" using d by simp
  then have "is_dec_digit c"
    using decimal_digits [of n] by (simp add: list_all_iff)
  then have "\<not> is_ws c"
    by (auto simp: is_dec_digit_def is_ws_def)
  then show ?thesis by (simp add: starts_value_def d)
qed

lemma encode_basestring_starts: "starts_value (encode_basestring s @ t)"
  by (simp add: starts_value_def encode_basestring_def quote_def is_ws_def)

lemma json_dumps_starts_value: "starts_value (json_dumps level v)"
proof (cases v)
  case (JInt i)
  show ?thesis
  proof (cases "i < 0")
    case True
    then show ?thesis by (simp add: JInt py_str_int_def starts_value_def is_ws_def)
  next
    case False
    then show ?thesis
      using decimal_starts_value [of "nat i" "[]"] by (simp add: JInt py_str_int_def)
  qed
next
  case (JStr s)
  then show ?thesis using encode_basestring_starts [of s "[]"] by simp
qed (simp_all add: starts_value_def is_ws_def)

lemma starts_value_append: "starts_value d \<Longrightarrow> starts_value (d @ t)"
  by (cases d) (simp_all add: starts_value_def)

lemma join_Cons: "ys \<noteq> [] \<Longrightarrow> join sep (y # ys) = y @ sep @ join sep ys"
  by (cases ys) simp_all

lemma join_starts_value:
  assumes "xs \<noteq> []" and "\<And>x. x \<in> set xs \<Longrightarrow> starts_value x"
  shows "starts_value (join sep xs @ t)"
proof (cases xs)
  case Nil
  with assms show ?thesis by simp
next
  case (Cons y ys)
  with assms have "starts_value y" by simp
  then show ?thesis
    unfolding Cons by (cases ys) (simp_all add: starts_value_append)
qed

subsection \<open>One step of a list and of a dictionary\<close>

lemma number_end_simps:
  "number_end (CHR '','' # t)" "number_end (newline # t)" "number_end []"
  by (simp_all add: number_end_def is_dec_digit_def newline_def)

lemma parse_elements_last:
  assumes "parse_value (d @ w @ CHR '']'' # rest) = Some (v, w @ CHR '']'' # rest)"
    and "d \<noteq> []" and "list_all is_ws w"
  shows "parse_elements (d @ w @ CHR '']'' # rest) = Some ([v], rest)"
proof -
  have "skip_ws (w @ CHR '']'' # rest) = CHR '']'' # rest"
    by (simp add: skip_ws_append [OF assms(3)] skip_ws_Cons is_ws_def)
  then show ?thesis
    using assms(1,2) by (simp add: parse_elements.simps [of "d @ w @ CHR '']'' # rest"])
qed

lemma parse_elements_more:
  assumes "parse_value (d @ CHR '','' # w @ t) = Some (v, CHR '','' # w @ t)"
    and "d \<noteq> []" and "list_all is_ws w" and "skip_ws t = t"
    and "parse_elements t = Some (vs, rest)"
  shows "parse_elements (d @ CHR '','' # w @ t) = Some (v # vs, rest)"
proof -
  have a: "skip_ws (CHR '','' # w @ t) = CHR '','' # w @ t"
    by (simp add: skip_ws_Cons is_ws_def)
  have b: "skip_ws (w @ t) = t"
    by (simp add: skip_ws_append [OF assms(3)] assms(4))
  show ?thesis
    using assms(1,2,5) by (simp add: parse_elements.simps [of "d @ CHR '','' # w @ t"] a b)
qed

lemma parse_members_key:
  "parse_members (encode_basestring k @ CHR '':'' # CHR '' '' # t) =
     (case parse_value (skip_ws t) of
        None \<Rightarrow> None
      | Some (v, r2) \<Rightarrow>
          if length r2 < length (encode_basestring k @ CHR '':'' # CHR '' '' # t) then
            (case skip_ws r2 of
               [] \<Rightarrow> None
             | x # xs \<Rightarrow>
                 if x = CHR ''}'' then Some ([(k, v)], xs)
                 else if x = CHR '','' then
                   (case parse_members (skip_ws xs) of
                      None \<Rightarrow> None
                    | Some (kvs, rest) \<Rightarrow> Some ((k, v) # kvs, rest))
                 else None)
          else None)"
proof -
  let ?s = "encode_basestring k @ CHR '':'' # CHR '' '' # t"
  have s: "?s = quote # (concat (map escape_char k) @ quote # CHR '':'' # CHR '' '' # t)"
    by (simp add: encode_basestring_def)
  have k: "scanstring (concat (map escape_char k) @ quote # CHR '':'' # CHR '' '' # t)
      = Some (k, CHR '':'' # CHR '' '' # t)"
    by (rule scanstring_escaped)
  have w: "skip_ws (CHR '':'' # CHR '' '' # t) = CHR '':'' # CHR '' '' # t"
    by (simp add: skip_ws_Cons is_ws_def)
  have w2: "skip_ws (CHR '' '' # t) = skip_ws t"
    by (simp add: skip_ws_def is_ws_def)
  show ?thesis
    by (subst parse_members.simps) (simp add: s k w w2)
qed

lemma parse_members_last:
  assumes "parse_value (d @ w @ CHR ''}'' # rest) = Some (v, w @ CHR ''}'' # rest)"
    and "starts_value d" and "list_all is_ws w"
  shows "parse_members (encode_basestring k @ '': '' @ d @ w @ CHR ''}'' # rest) = Some ([(k, v)], rest)"
proof -
  have a: "skip_ws (d @ w @ CHR ''}'' # rest) = d @ w @ CHR ''}'' # rest"
    using assms(2) by (rule starts_valueD)
  have b: "skip_ws (w @ CHR ''}'' # rest) = CHR ''}'' # rest"
    by (simp add: skip_ws_append [OF assms(3)] skip_ws_Cons is_ws_def)
  show ?thesis
    using assms(1) by (simp add: parse_members_key a b)
qed

lemma parse_members_more:
  assumes "parse_value (d @ CHR '','' # w @ t) = Some (v, CHR '','' # w @ t)"
    and "starts_value d" and "list_all is_ws w" and "skip_ws t = t"
    and "parse_members t = Some (kvs, rest)"
  shows "parse_members (encode_basestring k @ '': '' @ d @ CHR '','' # w @ t) = Some ((k, v) # kvs, rest)"
proof -
  have a: "skip_ws (d @ CHR '','' # w @ t) = d @ CHR '','' # w @ t"
    using assms(2) by (rule starts_valueD)
  have b: "skip_ws (CHR '','' # w @ t) = CHR '','' # w @ t"
    by (simp add: skip_ws_Cons is_ws_def)
  have c: "skip_ws (w @ t) = t"
    by (simp add: skip_ws_append [OF assms(3)] assms(4))
  show ?thesis
    using assms(1,5) by (simp add: parse_members_key a b c)
qed

subsection \<open>Every written value is read back\<close>

lemma parse_elements_join:
  assumes "vs \<noteq> []"
    and "\<And>v rest. v \<in> set vs \<Longrightarrow> number_end rest \<Longrightarrow>
          parse_value (json_dumps level v @ rest) = Some (v, rest)"
  shows "parse_elements (join ('','' @ newline_indent level) (map (json_dumps level) vs)
            @ newline_indent outer @ CHR '']'' # rest) = Some (vs, rest)"
  using assms
proof (induction vs rule: list_nonempty_induct)
  case (single v)
  have n: "number_end (newline_indent outer @ CHR '']'' # rest)"
    by (simp add: newline_indent_Cons number_end_simps)
  have "parse_elements (json_dumps level v @ newline_indent outer @ CHR '']'' # rest)
      = Some ([v], rest)"
  proof (rule parse_elements_last)
    show "parse_value (json_dumps level v @ newline_indent outer @ CHR '']'' # rest)
        = Some (v, newline_indent outer @ CHR '']'' # rest)"
      using n by (simp add: single)
    show "json_dumps level v \<noteq> []"
      using json_dumps_starts_value by (rule starts_valueD)
    show "list_all is_ws (newline_indent outer)"
      by (rule newline_indent_ws)
  qed
  then show ?case by simp
next
  case (cons v vs)
  let ?t = "join ('','' @ newline_indent level) (map (json_dumps level) vs)
      @ newline_indent outer @ CHR '']'' # rest"
  have t: "parse_elements ?t = Some (vs, rest)"
    using cons.IH cons.prems by simp
  have st: "starts_value ?t"
  proof (rule join_starts_value)
    show "map (json_dumps level) vs \<noteq> []" using cons.hyps by simp
    show "\<And>x. x \<in> set (map (json_dumps level) vs) \<Longrightarrow> starts_value x"
      using json_dumps_starts_value by auto
  qed
  have "parse_elements (json_dumps level v @ CHR '','' # newline_indent level @ ?t)
      = Some (v # vs, rest)"
  proof (rule parse_elements_more)
    show "parse_value (json_dumps level v @ CHR '','' # newline_indent level @ ?t)
        = Some (v, CHR '','' # newline_indent level @ ?t)"
      by (simp add: cons.prems number_end_simps)
    show "json_dumps level v \<noteq> []"
      using json_dumps_starts_value by (rule starts_valueD)
    show "list_all is_ws (newline_indent level)"
      by (rule newline_indent_ws)
    show "skip_ws ?t = ?t"
      using starts_valueD(2) [OF st, of "[]"] by simp
    show "parse_elements ?t = Some (vs, rest)"
      by (rule t)
  qed
  moreover have "map (json_dumps level) vs \<noteq> []"
    using cons.hyps by simp
  ultimately show ?case
    by (simp add: join_Cons)
qed

lemma parse_members_join:
  assumes "kvs \<noteq> []"
    and "\<And>kv rest. kv \<in> set kvs \<Longrightarrow> number_end rest \<Longrightarrow>
          parse_value (json_dumps level (snd kv) @ rest) = Some (snd kv, rest)"
  shows "parse_members (join ('','' @ newline_indent level)
            (map (\<lambda>kv. encode_basestring (fst kv) @ '': '' @ json_dumps level (snd kv)) kvs)
            @ newline_indent outer @ CHR ''}'' # rest) = Some (kvs, rest)"
  using assms
proof (induction kvs rule: list_nonempty_induct)
  case (single kv)
  have n: "number_end (newline_indent outer @ CHR ''}'' # rest)"
    by (simp add: newline_indent_Cons number_end_simps)
  have "parse_members (encode_basestring (fst kv) @ '': '' @ json_dumps level (snd kv)
      @ newline_indent outer @ CHR ''}'' # rest) = Some ([(fst kv, snd kv)], rest)"
  proof (rule parse_members_last)
    show "parse_value (json_dumps level (snd kv) @ newline_indent outer @ CHR ''}'' # rest)
        = Some (snd kv, newline_indent outer @ CHR ''}'' # rest)"
      using n by (simp add: single)
    show "starts_value (json_dumps level (snd kv))"
      by (rule json_dumps_starts_value)
    show "list_all is_ws (newline_indent outer)"
      by (rule newline_indent_ws)
  qed
  then show ?case by simp
next
  case (cons kv kvs)
  let ?item = "\<lambda>kv. encode_basestring (fst kv) @ '': '' @ json_dumps level (snd kv)"
  let ?t = "join ('','' @ newline_indent level) (map ?item kvs)
      @ newline_indent outer @ CHR ''}'' # rest"
  have t: "parse_members ?t = Some (kvs, rest)"
    using cons.IH cons.prems by simp
  have st: "starts_value ?t"
  proof (rule join_starts_value)
    show "map ?item kvs \<noteq> []" using cons.hyps by simp
    show "\<And>x. x \<in> set (map ?item kvs) \<Longrightarrow> starts_value x"
      using encode_basestring_starts by auto
  qed
  have "parse_members (encode_basestring (fst kv) @ '': '' @ json_dumps level (snd kv)
      @ CHR '','' # newline_indent level @ ?t) = Some ((fst kv, snd kv) # kvs, rest)"
  proof (rule parse_members_more)
    show "parse_value (json_dumps level (snd kv) @ CHR '','' # newline_indent level @ ?t)
        = Some (snd kv, CHR '','' # newline_indent level @ ?t)"
      by (simp add: cons.prems number_end_simps)
    show "starts_value (json_dumps level (snd kv))"
      by (rule json_dumps_starts_value)
    show "list_all is_ws (newline_indent level)"
      by (rule newline_indent_ws)
    show "skip_ws ?t = ?t"
      using starts_valueD(2) [OF st, of "[]"] by simp
    show "parse_members ?t = Some (kvs, rest)"
      by (rule t)
  qed
  moreover have "map ?item kvs \<noteq> []"
    using cons.hyps by simp
  ultimately show ?case
    by (simp add: join_Cons)
qed

lemma parse_value_Cons:
  "parse_value (c # cs) =
     (if c = quote then
        (case scanstring cs of None \<Rightarrow> None | Some (t, rest) \<Rightarrow> Some (JStr t, rest))
      else if c = CHR ''['' then
        (case skip_ws cs of
           [] \<Rightarrow> None
         | d # ds \<Rightarrow>
             if d = CHR '']'' then Some (JArr [], ds)
             else (case parse_elements (d # ds) of
                     None \<Rightarrow> None
                   | Some (vs, rest) \<Rightarrow> Some (JArr vs, rest)))
      else if c = CHR ''{'' then
        (case skip_ws cs of
           [] \<Rightarrow> None
         | d # ds \<Rightarrow>
             if d = CHR ''}'' then Some (JObj [], ds)
             else (case parse_members (d # ds) of
                     None \<Rightarrow> None
                   | Some (kvs, rest) \<Rightarrow> Some (JObj kvs, rest)))
      else if c = CHR ''n'' then
        (if take 3 cs = ''ull'' then Some (JNull, drop 3 cs) else None)
      else if c = CHR ''t'' then
        (if take 3 cs = ''rue'' then Some (JBool True, drop 3 cs) else None)
      else if c = CHR ''f'' then
        (if take 4 cs = ''alse'' then Some (JBool False, drop 4 cs) else None)
      else
        (case scan_number (c # cs) of None \<Rightarrow> None | Some (i, rest) \<Rightarrow> Some (JInt i, rest)))"
  by (subst parse_value.simps) simp

lemma parse_value_json_dumps:
  "number_end rest \<Longrightarrow> parse_value (json_dumps level v @ rest) = Some (v, rest)"
proof (induction v arbitrary: level rest)
  case JNull
  then show ?case by (simp add: parse_value_Cons quote_def)
next
  case (JBool b)
  then show ?case
    by (cases b)
      (simp_all add: parse_value_Cons quote_def)
next
  case (JInt i)
  obtain c cs where d: "py_str_int i = c # cs"
    by (cases "py_str_int i") (simp_all add: py_str_int_def decimal_nonempty split: if_splits)
  have "c = CHR ''-'' \<or> is_dec_digit c"
  proof (cases "i < 0")
    case True
    with d show ?thesis by (simp add: py_str_int_def)
  next
    case False
    with d have "c \<in> set (decimal (nat i))" by (simp add: py_str_int_def)
    then show ?thesis using decimal_digits [of "nat i"] by (simp add: list_all_iff)
  qed
  then have c: "c \<noteq> quote" "c \<noteq> CHR ''[''" "c \<noteq> CHR ''{''" "c \<noteq> CHR ''n''" "c \<noteq> CHR ''t''"
      "c \<noteq> CHR ''f''"
    by (auto simp: is_dec_digit_def quote_def)
  have "parse_value (c # cs @ rest) =
      (case scan_number (c # cs @ rest) of None \<Rightarrow> None | Some (i, r) \<Rightarrow> Some (JInt i, r))"
    using c by (simp add: parse_value_Cons)
  moreover have "scan_number (c # cs @ rest) = Some (i, rest)"
    using scan_number_py_str_int [OF JInt, of i] d by simp
  ultimately show ?case
    by (simp add: d)
next
  case (JStr s)
  have "parse_value (quote # concat (map escape_char s) @ quote # rest) = Some (JStr s, rest)"
    by (simp add: parse_value_Cons scanstring_escaped)
  then show ?case
    by (simp add: encode_basestring_def)
next
  case (JArr vs)
  show ?case
  proof (cases "vs = []")
    case True
    then show ?thesis
      by (simp add: parse_value_Cons quote_def skip_ws_Cons is_ws_def)
  next
    case False
    define t where "t = join ('','' @ newline_indent (Suc level)) (map (json_dumps (Suc level)) vs)
        @ newline_indent level @ CHR '']'' # rest"
    have e: "parse_elements t = Some (vs, rest)"
      unfolding t_def using False JArr.IH by (rule parse_elements_join)
    have "starts_value t"
      unfolding t_def
    proof (rule join_starts_value)
      show "map (json_dumps (Suc level)) vs \<noteq> []" using False by simp
      show "\<And>x. x \<in> set (map (json_dumps (Suc level)) vs) \<Longrightarrow> starts_value x"
        using json_dumps_starts_value by auto
    qed
    then obtain d ds where t: "t = d # ds" and d: "\<not> is_ws d"
      by (cases t) (simp_all add: starts_value_def)
    have nb: "d \<noteq> CHR '']''"
    proof
      assume "d = CHR '']''"
      with t have "parse_elements t = None"
        by (simp add: parse_elements.simps [of "CHR '']'' # ds"]
            parse_value_Cons quote_def scan_number_def scan_unsigned_def
            scan_digits_def is_dec_digit_def)
      with e show False by simp
    qed
    have s: "skip_ws (newline_indent (Suc level) @ t) = d # ds"
      using d by (simp add: skip_ws_append [OF newline_indent_ws] t skip_ws_Cons)
    have "parse_value (CHR ''['' # newline_indent (Suc level) @ t) = Some (JArr vs, rest)"
      using e nb unfolding t
      by (simp add: parse_value_Cons s [unfolded t] quote_def)
    moreover have "json_dumps level (JArr vs) @ rest = CHR ''['' # newline_indent (Suc level) @ t"
      using False by (simp add: t_def)
    ultimately show ?thesis
      by simp
  qed
next
  case (JObj kvs)
  show ?case
  proof (cases "kvs = []")
    case True
    then show ?thesis
      by (simp add: parse_value_Cons quote_def skip_ws_Cons is_ws_def)
  next
    case False
    define t where "t = join ('','' @ newline_indent (Suc level))
          (map (\<lambda>kv. encode_basestring (fst kv) @ '': '' @ json_dumps (Suc level) (snd kv)) kvs)
        @ newline_indent level @ CHR ''}'' # rest"
    have ih: "parse_value (json_dumps (Suc level) (snd kv) @ r) = Some (snd kv, r)"
      if "kv \<in> set kvs" "number_end r" for kv r
    proof -
      have "snd kv \<in> Basic_BNFs.snds kv"
        by (cases kv) simp
      with that show ?thesis
        using JObj.IH by blast
    qed
    have e: "parse_members t = Some (kvs, rest)"
      unfolding t_def using False ih by (rule parse_members_join)
    obtain kv kvs' where k: "kvs = kv # kvs'"
      using False by (cases kvs) simp_all
    obtain ds where t: "t = quote # ds"
      unfolding t_def k by (cases kvs') (simp_all add: encode_basestring_def)
    have q: "\<not> is_ws quote" "quote \<noteq> CHR ''}''" "CHR ''{'' \<noteq> quote"
      by (simp_all add: is_ws_def quote_def)
    have s: "skip_ws (newline_indent (Suc level) @ t) = quote # ds"
      using q by (simp add: skip_ws_append [OF newline_indent_ws] t skip_ws_Cons)
    have "parse_value (CHR ''{'' # newline_indent (Suc level) @ t) = Some (JObj kvs, rest)"
      using e q unfolding t
      by (simp add: parse_value_Cons s [unfolded t])
    moreover have "json_dumps level (JObj kvs) @ rest = CHR ''{'' # newline_indent (Suc level) @ t"
      using False by (simp add: t_def)
    ultimately show ?thesis
      by simp
  qed
qed

lemma json_loads_json_dump: "json_loads (json_dump v) = Some v"
proof -
  have "skip_ws (json_dumps 0 v) = json_dumps 0 v"
    using starts_valueD(2) [OF json_dumps_starts_value, of 0 v "[]"] by simp
  moreover have "parse_value (json_dumps 0 v @ []) = Some (v, [])"
    by (rule parse_value_json_dumps) (rule number_end_simps)
  ultimately show ?thesis
    by (simp add: json_loads_def json_dump_def skip_ws_def)
qed

section \<open>The export\<close>

lemma import_row_export_row: "import_row (export_row msg) = Some (original_fields msg)"
proof -
  have "as_optional_text (Some (json_of_optional (entry_model msg))) = Some (entry_model msg)"
    by (cases "entry_model msg") (simp_all add: json_of_optional_def)
  then show ?thesis
    by (simp add: export_row_def import_fields_def original_fields_def str_text_def)
qed

lemma import_rows_dialog_data: "import_rows (dialog_data history) = Some (map original_fields history)"
proof -
  have "those (map import_row (map export_row history)) = Some (map original_fields history)"
    by (induction history) (simp_all add: import_row_export_row)
  then show ?thesis
    by (simp add: dialog_data_def)
qed

lemma read_export_json_dump:
  "read_export (json_dump (dialog_data history)) = Some (map original_fields history)"
  by (simp add: read_export_def json_loads_json_dump import_rows_dialog_data)

lemma save_dialog_files:
  assumes "write_ok w"
  shows "files (ChatApp_save_dialog w a) =
     (files a)(export_filename w \<mapsto> json_dump (dialog_data (get_chat_history (cache a))))"
  using assms by (simp add: ChatApp_save_dialog_def Let_def)

text \<open>
  C5. Whatever the transcript holds, the document that an export writes, read back from
  the export format, gives for every entry, in order, the five fields of the original:
  the texts byte for byte (so every character outside ASCII as it was) and the number of
  tokens as the same integer.
\<close>

theorem export_round_trip:
  assumes "write_ok w"
  shows "Option.bind (files (ChatApp_save_dialog w a) (export_filename w)) read_export =
     Some (map original_fields (get_chat_history (cache a)))"
  by (simp add: save_dialog_files [OF assms] read_export_json_dump)

lemma sent_app_history:
  "get_chat_history (cache sent_app) =
     [\<lparr>entry_id = 0, entry_model = Some ''m1'', user_message = ''hi'',
       ai_response = oshibka @ '': timeout'', timestamp = ''2024-03-01 14:05:09'', tokens = 0\<rparr>]"
  by (simp add: sent_app_def ChatApp_send_message_def Let_def save_message_def
      get_chat_history_def update_balance_frame example_io_def chat_app_cache chat_app_model
      stored_cache_def)

theorem export_round_trip_witness:
  "write_ok example_io
   \<and> Option.bind (files (ChatApp_save_dialog example_io sent_app) (export_filename example_io))
        read_export =
      Some [\<lparr>x_timestamp = ''2024-03-01 14:05:09'', x_model = Some ''m1'',
              x_user_message = ''hi'', x_ai_response = oshibka @ '': timeout'', x_tokens = 0\<rparr>]"
proof -
  have w: "write_ok example_io"
    by (simp add: example_io_def)
  show ?thesis
    using export_round_trip [OF w, of sent_app] w
    by (simp add: sent_app_history original_fields_def)
qed

lemma decimal_length:
  assumes "n < 10 ^ k" and "0 < k"
  shows "length (decimal n) \<le> k"
  using assms
proof (induction n arbitrary: k rule: decimal.induct)
  case (1 n)
  show ?case
  proof (cases "n < 10")
    case True
    with "1.prems" show ?thesis by (simp add: decimal.simps [of n])
  next
    case False
    obtain j where k: "k = Suc j"
      using "1.prems"(2) by (cases k) simp_all
    have "j \<noteq> 0"
      using False "1.prems"(1) k by (cases j) simp_all
    moreover have "n div 10 < 10 ^ j"
      using "1.prems"(1) k by (simp add: less_mult_imp_div_less mult.commute)
    ultimately have "length (decimal (n div 10)) \<le> j"
      using "1.IH" False by simp
    with False k show ?thesis by (simp add: decimal.simps [of n])
  qed
qed

lemma zero_pad_length:
  assumes "n < 10 ^ k" and "0 < k"
  shows "length (zero_pad k n) = k"
  using decimal_length [OF assms] by (simp add: zero_pad_def)

lemma decimal_length_lower:
  assumes "10 ^ k \<le> n"
  shows "k < length (decimal n)"
  using assms
proof (induction n arbitrary: k rule: decimal.induct)
  case (1 n)
  show ?case
  proof (cases k)
    case 0
    then show ?thesis
      using decimal_nonempty [of n] by (cases "decimal n") simp_all
  next
    case (Suc j)
    have "(1::nat) \<le> 10 ^ j"
      by simp
    moreover have "10 * 10 ^ j \<le> n"
      using "1.prems" Suc by simp
    ultimately have n: "\<not> n < 10"
      by linarith
    have "10 ^ j \<le> n div 10"
      using "1.prems" Suc by (simp add: less_eq_div_iff_mult_less_eq mult.commute)
    with "1.IH" n have "j < length (decimal (n div 10))"
      by simp
    with n Suc show ?thesis
      by (simp add: decimal.simps [of n])
  qed
qed

lemma decimal_four_digits:
  assumes "1000 \<le> n" and "n < 10000"
  shows "length (decimal n) = 4"
proof -
  have "length (decimal n) \<le> 4"
    using assms(2) by (intro decimal_length) simp_all
  moreover have "3 < length (decimal n)"
    using assms(1) by (intro decimal_length_lower) simp
  ultimately show ?thesis by simp
qed

lemma strftime_length:
  assumes "1000 \<le> year t" and "year t < 10000" and "month t < 100" and "day t < 100"
    and "hour t < 100" and "minute t < 100" and "second t < 100"
  shows "length (strftime t) = 15"
proof -
  have "length (decimal (year t)) = 4"
    using assms(1,2) by (rule decimal_four_digits)
  moreover have "length (zero_pad 2 n) = 2" if "n < 100" for n
    using that by (intro zero_pad_length) simp_all
  ultimately show ?thesis
    using assms by (simp add: strftime_def)
qed

text \<open>
  C6, as amended. An export whose write succeeds writes one document, the whole history,
  and nothing else: the files are as before but for the one named
  \<open>exports/chat_history_<stamp>.json\<close>, where the stamp is the local wall-clock time of
  \<open>datetime.now()\<close>, in the form \<open>YYYYMMDD_HHMMSS\<close> (15 characters) for the years from
  1000 to 9999.
\<close>

theorem export_file_name:
  assumes "write_ok w"
  shows "files (ChatApp_save_dialog w a) =
       (files a)(''exports/chat_history_'' @ strftime (local_now w) @ ''.json''
                   \<mapsto> json_dump (dialog_data (get_chat_history (cache a))))
     \<and> (1000 \<le> year (local_now w) \<and> year (local_now w) < 10000
          \<and> month (local_now w) < 100 \<and> day (local_now w) < 100
          \<and> hour (local_now w) < 100 \<and> minute (local_now w) < 100 \<and> second (local_now w) < 100
        \<longrightarrow> length (strftime (local_now w)) = 15)"
  using save_dialog_files [OF assms, of a] strftime_length [of "local_now w"]
  by (simp add: export_filename_def exports_dir_def datetime_now_def)

lemma strftime_local_example: "strftime (local_now example_io) = ''20240301_150509''"
  by code_simp

lemma strftime_utc_example: "strftime (utc_now example_io) = ''20240301_120509''"
  by code_simp

theorem export_file_name_witness:
  "write_ok example_io
   \<and> files (ChatApp_save_dialog example_io sent_app) =
       (files sent_app)(''exports/chat_history_20240301_150509.json''
                   \<mapsto> json_dump (dialog_data (get_chat_history (cache sent_app))))
   \<and> length ''20240301_150509'' = 15"
proof -
  have w: "write_ok example_io"
    by (simp add: example_io_def)
  show ?thesis
    using export_file_name [OF w, of sent_app] w by (simp add: strftime_local_example)
qed

text \<open>
  C6 as stated fails: with a local clock three hours ahead of UTC, the export writes the
  file stamped with the local time 15:05:09 and no file stamped with the UTC time
  12:05:09.
\<close>

theorem utc_file_name_counterexample:
  "strftime (utc_now example_io) = ''20240301_120509''
   \<and> files (ChatApp_save_dialog example_io sent_app) ''exports/chat_history_20240301_120509.json''
       = None
   \<and> files (ChatApp_save_dialog example_io sent_app) ''exports/chat_history_20240301_150509.json''
       = Some (json_dump (dialog_data (get_chat_history (cache sent_app))))"
proof -
  have w: "write_ok example_io"
    by (simp add: example_io_def)
  have f: "files sent_app = Map.empty"
    by (simp add: sent_app_def ChatApp_send_message_def Let_def save_message_def
        update_balance_frame example_io_def chat_app_files)
  show ?thesis
    by (simp add: save_dialog_files [OF w] export_filename_def exports_dir_def
        datetime_now_def strftime_local_example strftime_utc_example f)
qed

end
